theory Spec2Isabelle
  imports Main
begin

section \<open>Strings\<close>

text \<open>
  A Python \<open>str\<close> is modelled as a \<open>string\<close>, each \<open>char\<close> standing for one code
  point below 256. On that range \<open>\d\<close> of the \<open>re\<close> module accepts exactly the ten ASCII
  digits, \<open>.\<close> accepts everything but the line feed, and \<open>str.isspace\<close> holds for the
  twelve characters listed in \<open>isspace\<close>.
\<close>

definition NL :: char where
  "NL = CHR 0x0A"

definition isdigit :: "char \<Rightarrow> bool" where
  "isdigit c = (c \<in> set ''0123456789'')"

definition isspace :: "char \<Rightarrow> bool" where
  "isspace c = (c \<in> set [CHR 0x09, CHR 0x0A, CHR 0x0B, CHR 0x0C, CHR 0x0D, CHR 0x1C, CHR 0x1D,
                           CHR 0x1E, CHR 0x1F, CHR 0x20, CHR 0x85, CHR 0xA0])"

text \<open>\<open>str.strip()\<close>: leading and trailing whitespace removed.\<close>

definition strip :: "string \<Rightarrow> string" where
  "strip s = rev (dropWhile isspace (rev (dropWhile isspace s)))"

text \<open>\<open>str.rstrip()\<close>, which the program never calls; the specification speaks of it.\<close>

definition rstrip :: "string \<Rightarrow> string" where
  "rstrip s = rev (dropWhile isspace (rev s))"

section \<open>Regular expressions with backtracking\<close>

text \<open>
  The fragment of Python's \<open>re\<close> syntax that \<open>subtitle_pattern\<close> uses. \<open>EndOfLine\<close> is
  \<open>$\<close> under \<open>re.MULTILINE\<close>; \<open>Star\<close> is the greedy \<open>*\<close>, \<open>LazyStar\<close> is \<open>*?\<close>;
  \<open>Group n\<close> is the \<open>n\<close>-th capturing group, \<open>(?:...)\<close> needs no constructor.
\<close>

datatype regex =
    Eps
  | Lit char
  | Digit
  | AnyChar
  | EndOfLine
  | Cat regex regex
  | Alt regex regex
  | Star regex
  | LazyStar regex
  | Group nat regex

text \<open>
  A matcher state is the captures made so far (the latest first) and the input that is
  left. \<open>ms r st\<close> lists every way \<open>r\<close> matches a prefix of the input, in the order in
  which the backtracking matcher tries them: the head is the match it reports. A
  repetition gives up an iteration that consumed nothing.
\<close>

type_synonym mstate = "(nat \<times> string) list \<times> string"

function ms :: "regex \<Rightarrow> mstate \<Rightarrow> mstate list" where
  "ms Eps st = [st]"
| "ms (Lit c) st = (case snd st of [] \<Rightarrow> [] | x # xs \<Rightarrow> if x = c then [(fst st, xs)] else [])"
| "ms Digit st = (case snd st of [] \<Rightarrow> [] | x # xs \<Rightarrow> if isdigit x then [(fst st, xs)] else [])"
| "ms AnyChar st = (case snd st of [] \<Rightarrow> [] | x # xs \<Rightarrow> if x \<noteq> NL then [(fst st, xs)] else [])"
| "ms EndOfLine st = (case snd st of [] \<Rightarrow> [st] | x # xs \<Rightarrow> if x = NL then [st] else [])"
| "ms (Cat a b) st = concat (map (ms b) (ms a st))"
| "ms (Alt a b) st = ms a st @ ms b st"
| "ms (Star r) st =
     concat (map (\<lambda>st'. if length (snd st') < length (snd st) then ms (Star r) st' else [])
                 (ms r st)) @ [st]"
| "ms (LazyStar r) st =
     st # concat (map (\<lambda>st'. if length (snd st') < length (snd st) then ms (LazyStar r) st' else [])
                      (ms r st))"
| "ms (Group n r) st =
     map (\<lambda>st'. ((n, take (length (snd st) - length (snd st')) (snd st)) # fst st', snd st'))
         (ms r st)"
  by pat_completeness auto
termination
  by (relation "measure size <*lex*> measure (length \<circ> snd)") auto

fun seq :: "regex list \<Rightarrow> regex" where
  "seq [] = Eps"
| "seq (r # rs) = Cat r (seq rs)"

text \<open>\<open>\d{2}:\d{2}:\d{2},\d{3}\<close>\<close>

definition timestamp :: regex where
  "timestamp = seq [Digit, Digit, Lit CHR '':'', Digit, Digit, Lit CHR '':'', Digit, Digit,
                    Lit CHR '','', Digit, Digit, Digit]"

text \<open>
  \<^verbatim>\<open>(\d+)\n(\d{2}:\d{2}:\d{2},\d{3}) --> (\d{2}:\d{2}:\d{2},\d{3})\n((?:.*?\n)*?)(?:\n|$)\<close>
\<close>

definition subtitle_pattern :: regex where
  "subtitle_pattern =
     seq [Group 1 (Cat Digit (Star Digit)), Lit NL,
          Group 2 timestamp, seq (map Lit '' --> ''), Group 3 timestamp, Lit NL,
          Group 4 (LazyStar (Cat (LazyStar AnyChar) (Lit NL))),
          Alt (Lit NL) EndOfLine]"

text \<open>The match the matcher reports at the start of \<open>s\<close>: the first of \<open>ms\<close>.\<close>

definition match_at :: "regex \<Rightarrow> string \<Rightarrow> mstate option" where
  "match_at r s = (case ms r ([], s) of [] \<Rightarrow> None | st # _ \<Rightarrow> Some st)"

text \<open>
  \<open>re.finditer\<close>: the leftmost match, then the scan goes on where that match ended. The
  pattern has no look-behind, so the scan may forget the input it has passed. After an
  empty match the scan moves one character on; \<open>subtitle_pattern\<close> has no empty match.
\<close>

function finditer :: "regex \<Rightarrow> string \<Rightarrow> (nat \<times> string) list list" where
  "finditer r s =
     (case match_at r s of
        Some (g, rest) \<Rightarrow>
          if length rest < length s then g # finditer r rest
          else g # (case s of [] \<Rightarrow> [] | _ # t \<Rightarrow> finditer r t)
      | None \<Rightarrow> (case s of [] \<Rightarrow> [] | _ # t \<Rightarrow> finditer r t))"
  by pat_completeness auto
termination
  by (relation "measure (length \<circ> snd)") auto

text \<open>\<open>match.group(n)\<close>; every group of \<open>subtitle_pattern\<close> takes part in every match.\<close>

definition match_group :: "(nat \<times> string) list \<Rightarrow> nat \<Rightarrow> string" where
  "match_group g n = (case map_of g n of Some v \<Rightarrow> v | None \<Rightarrow> [])"

section \<open>The parser and the serializer\<close>

text \<open>
  A subtitle is a dictionary with the four keys \<open>index\<close>, \<open>start_time\<close>, \<open>end_time\<close>
  and \<open>text\<close>, all strings; the last is the field \<open>sub_text\<close> here.
\<close>

record subtitle =
  index :: string
  start_time :: string
  end_time :: string
  sub_text :: string

text \<open>The dictionary that the loop of \<open>parse_srt\<close> makes of one match.\<close>

definition record_of :: "(nat \<times> string) list \<Rightarrow> subtitle" where
  "record_of m = \<lparr>index = match_group m 1, start_time = match_group m 2, end_time = match_group m 3,
                  sub_text = strip (match_group m 4)\<rparr>"

definition parse_srt :: "string \<Rightarrow> subtitle list" where
  "parse_srt content = map record_of (finditer subtitle_pattern content)"

text \<open>What \<open>save_progress\<close> writes for one record, and for a list of records.\<close>

definition render :: "subtitle \<Rightarrow> string" where
  "render sub = index sub @ [NL] @ start_time sub @ '' --> '' @ end_time sub @ [NL]
                @ sub_text sub @ [NL, NL]"

definition serialize :: "subtitle list \<Rightarrow> string" where
  "serialize subs = concat (map render subs)"

section \<open>The pattern, read off\<close>

text \<open>
  What a match of \<open>subtitle_pattern\<close> amounts to, written without the matcher; the
  lemma \<open>match_at_subtitle_pattern\<close> below proves that the two agree on every input.
\<close>

text \<open>The character class of a pattern that matches exactly one character.\<close>

fun char_class :: "regex \<Rightarrow> (char \<Rightarrow> bool) option" where
  "char_class (Lit c) = Some (\<lambda>x. x = c)"
| "char_class Digit = Some isdigit"
| "char_class AnyChar = Some (\<lambda>x. x \<noteq> NL)"
| "char_class _ = None"

definition timestamp_shape :: "(char \<Rightarrow> bool) list" where
  "timestamp_shape =
     [isdigit, isdigit, (\<lambda>x. x = CHR '':''), isdigit, isdigit, (\<lambda>x. x = CHR '':''),
      isdigit, isdigit, (\<lambda>x. x = CHR '',''), isdigit, isdigit, isdigit]"

definition is_timestamp :: "string \<Rightarrow> bool" where
  "is_timestamp t = list_all2 (\<lambda>p c. p c) timestamp_shape t"

text \<open>
  Group 4 and the end of the pattern: \<open>text_end at_line_start s\<close> is the input left
  where the lazy repetition of lines stops, which is at the first line start that is
  followed by a line feed or by the end of the input; there is none when the input
  ends inside a line.
\<close>

fun text_end :: "bool \<Rightarrow> string \<Rightarrow> string option" where
  "text_end True [] = Some []"
| "text_end False [] = None"
| "text_end True (x # xs) = (if x = NL then Some (x # xs) else text_end False xs)"
| "text_end False (x # xs) = (if x = NL then text_end True xs else text_end False xs)"

text \<open>\<open>fits ps s\<close>: the input starts with one character of each class of \<open>ps\<close>, in turn.\<close>

definition fits :: "(char \<Rightarrow> bool) list \<Rightarrow> string \<Rightarrow> bool" where
  "fits ps s = (length ps \<le> length s \<and> list_all2 (\<lambda>p c. p c) ps (take (length ps) s))"

definition first :: "'a list \<Rightarrow> 'a option" where
  "first xs = (case xs of [] \<Rightarrow> None | x # _ \<Rightarrow> Some x)"

definition match_direct :: "string \<Rightarrow> mstate option" where
  "match_direct s =
     (let idx = takeWhile isdigit s; s1 = drop 1 (dropWhile isdigit s); body = drop 30 s1 in
      if idx \<noteq> [] \<and> take 1 (dropWhile isdigit s) = [NL] \<and> is_timestamp (take 12 s1)
         \<and> take 5 (drop 12 s1) = '' --> '' \<and> is_timestamp (take 12 (drop 17 s1))
         \<and> take 1 (drop 29 s1) = [NL]
      then (case text_end True body of
              None \<Rightarrow> None
            | Some s3 \<Rightarrow>
                Some ([(4, take (length body - length s3) body), (3, take 12 (drop 17 s1)),
                       (2, take 12 s1), (1, idx)], drop 1 s3))
      else None)"

section \<open>Joining and splitting a batch\<close>

definition delimiter :: string where
  "delimiter = [NL] @ ''---'' @ [NL]"

text \<open>\<open>sep.join(xs)\<close>\<close>

fun join :: "string \<Rightarrow> string list \<Rightarrow> string" where
  "join sep [] = []"
| "join sep [x] = x"
| "join sep (x # y # ys) = x @ sep @ join sep (y # ys)"

text \<open>
  \<open>s.split(sep)\<close> for a separator that is not empty: the occurrences of \<open>sep\<close> are
  found from left to right and do not overlap. \<open>cur\<close> is the part being read.
\<close>

function split_from :: "string \<Rightarrow> string \<Rightarrow> string \<Rightarrow> string list" where
  "split_from sep cur [] = [cur]"
| "split_from sep cur (x # xs) =
     (if sep \<noteq> [] \<and> take (length sep) (x # xs) = sep
      then cur # split_from sep [] (drop (length sep) (x # xs))
      else split_from sep (cur @ [x]) xs)"
  by pat_completeness auto
termination
  by (relation "measure (\<lambda>(sep, cur, s). length s)") auto

definition split :: "string \<Rightarrow> string \<Rightarrow> string list" where
  "split sep s = split_from sep [] s"

section \<open>The translation client\<close>

text \<open>
  The exceptions that leave a function of the program. \<open>KeyboardInterrupt\<close> is the only
  one that \<open>except Exception\<close> does not catch.
\<close>

datatype exn = KeyboardInterrupt | AttributeError | IndexError | FileNotFoundError

text \<open>
  One attempt (the body of the \<open>try\<close>: \<open>requests.post\<close>, \<open>raise_for_status\<close> and the
  reading of the JSON body) ends in the generated text, in an \<open>Exception\<close>, or in a
  \<open>KeyboardInterrupt\<close>. Of the \<open>Exception\<close> the handler reads one thing, its
  \<open>response\<close> attribute: absent (\<open>KeyError\<close>, \<open>IndexError\<close>, \<open>TypeError\<close> of a malformed
  body), present and \<open>None\<close> (every \<open>requests\<close> exception built without a response:
  connection errors, timeouts), or present with a response whose content is printed
  (\<open>HTTPError\<close> of \<open>raise_for_status\<close>).
\<close>

datatype response_attr = NoAttr | AttrNone | AttrResponse string

datatype reply = Generated string | Failed response_attr | Interrupted

record translator =
  max_retries :: nat
  retry_delay :: nat

definition init :: translator where
  "init = \<lparr>max_retries = 3, retry_delay = 2\<rparr>"

definition prompt_for :: "string \<Rightarrow> string \<Rightarrow> string" where
  "prompt_for text_in target_language =
     ''Translate only the following text to '' @ target_language @
     ''. Use lowercase unless grammatically required. Do not add any commentary or additional text:''
     @ [NL, NL] @ text_in"

text \<open>
  The loop \<open>for attempt in range(self.max_retries)\<close>. \<open>post n p\<close> is the outcome of the
  request number \<open>n\<close> of the run, sent with prompt \<open>p\<close>; the count of requests is
  returned with the result. The result is an exception, or the returned value: \<open>None\<close>
  when the loop ends without a \<open>return\<close>. In the handler, \<open>e.response.content\<close> raises
  \<open>AttributeError\<close> when \<open>e.response\<close> is \<open>None\<close>. The sleeps and the printing to the
  terminal are left out.
\<close>

function attempts ::
  "(nat \<Rightarrow> string \<Rightarrow> reply) \<Rightarrow> translator \<Rightarrow> string \<Rightarrow> string \<Rightarrow> nat \<Rightarrow> nat
   \<Rightarrow> (exn + string option) \<times> nat" where
  "attempts post tr prompt text_in attempt n =
     (if attempt < max_retries tr then
        (case post n prompt of
           Generated t \<Rightarrow> (Inr (Some t), Suc n)
         | Interrupted \<Rightarrow> (Inl KeyboardInterrupt, Suc n)
         | Failed e \<Rightarrow>
             if attempt < max_retries tr - 1 then
               (if e = AttrNone then (Inl AttributeError, Suc n)
                else attempts post tr prompt text_in (Suc attempt) (Suc n))
             else
               (if e = AttrNone then (Inl AttributeError, Suc n)
                else (Inr (Some text_in), Suc n)))
      else (Inr None, n))"
  by pat_completeness auto
termination
  by (relation "measure (\<lambda>(post, tr, prompt, text_in, attempt, n). max_retries tr - attempt)") auto

definition translate_text ::
  "(nat \<Rightarrow> string \<Rightarrow> reply) \<Rightarrow> translator \<Rightarrow> string \<Rightarrow> string \<Rightarrow> nat
   \<Rightarrow> (exn + string option) \<times> nat" where
  "translate_text post tr text_in target_language n =
     attempts post tr (prompt_for text_in target_language) text_in 0 n"

section \<open>Files\<close>

type_synonym fs = "string \<rightharpoonup> string"

definition save_progress :: "subtitle list \<Rightarrow> string \<Rightarrow> fs \<Rightarrow> fs" where
  "save_progress translated_subtitles output_file files = files(output_file \<mapsto> serialize translated_subtitles)"

text \<open>\<open>now\<close> is the time stamp \<open>datetime.now().strftime("%Y%m%d_%H%M%S")\<close>.\<close>

definition create_backup :: "string \<Rightarrow> string \<Rightarrow> fs \<Rightarrow> fs \<times> string" where
  "create_backup now file_path files =
     (let backup_path = file_path @ ''.'' @ now @ ''.backup'' in
      (case files file_path of
         Some content \<Rightarrow> (files(backup_path \<mapsto> content), backup_path)
       | None \<Rightarrow> (files, backup_path)))"

section \<open>The batch orchestrator\<close>

text \<open>
  What the run takes from outside: \<open>post\<close>, the outcome of each request; \<open>clock\<close>, the
  time stamp of the backup; and \<open>sigint\<close>, the interruptions that arrive while the parts
  of a batch are assigned: \<open>sigint w b j\<close> holds when, in batch number \<open>b\<close> (from 0), the
  signal is delivered after \<open>j\<close> parts were appended and before the next statement
  (the next iteration, or the \<open>save_progress\<close> after the last one). An interruption
  during a request is the reply \<open>Interrupted\<close>.
\<close>

record world =
  post :: "nat \<Rightarrow> string \<Rightarrow> reply"
  sigint :: "nat \<Rightarrow> nat \<Rightarrow> bool"
  clock :: string

record run_state =
  files :: fs
  requests :: nat
  translated_subtitles :: "subtitle list"

definition batch_size :: nat where
  "batch_size = 5"

text \<open>\<open>subtitle = batch[j].copy(); subtitle['text'] = part.strip()\<close>\<close>

definition retext :: "subtitle \<Rightarrow> string \<Rightarrow> subtitle" where
  "retext sub part = sub\<lparr>sub_text := strip part\<rparr>"

text \<open>
  The loop \<open>for j, part in enumerate(translated_parts)\<close>, from iteration \<open>j\<close> on.
  \<open>batch[j]\<close> raises \<open>IndexError\<close> when \<open>j\<close> is not below \<open>len(batch)\<close>. The list
  \<open>translated_subtitles\<close> is updated in place, so it is returned with the exception too.
\<close>

fun assign_parts ::
  "(nat \<Rightarrow> bool) \<Rightarrow> subtitle list \<Rightarrow> nat \<Rightarrow> string list \<Rightarrow> subtitle list
   \<Rightarrow> subtitle list \<times> exn option" where
  "assign_parts sig batch j [] acc = (acc, if sig j then Some KeyboardInterrupt else None)"
| "assign_parts sig batch j (part # parts) acc =
     (if sig j then (acc, Some KeyboardInterrupt)
      else if j < length batch
      then assign_parts sig batch (Suc j) parts (acc @ [retext (batch ! j) part])
      else (acc, Some IndexError))"

text \<open>
  The body of the loop over the batches, for the batch that starts at record \<open>i\<close>:
  the state after it, and the exception that left it, if any.
\<close>

definition batch_step ::
  "world \<Rightarrow> translator \<Rightarrow> string \<Rightarrow> subtitle list \<Rightarrow> string \<Rightarrow> nat \<Rightarrow> run_state
   \<Rightarrow> run_state \<times> exn option" where
  "batch_step w tr target_language subtitles progress_file i st =
     (let batch = take batch_size (drop i subtitles);
          combined_text = join delimiter (map sub_text batch)
      in case translate_text (post w) tr combined_text target_language (requests st) of
           (Inl e, n) \<Rightarrow> (st\<lparr>requests := n\<rparr>, Some e)
         | (Inr None, n) \<Rightarrow> (st\<lparr>requests := n\<rparr>, Some AttributeError)
         | (Inr (Some translated_text), n) \<Rightarrow>
             (case assign_parts (sigint w (i div batch_size)) batch 0
                     (split delimiter translated_text) (translated_subtitles st) of
                (acc, Some e) \<Rightarrow> (st\<lparr>requests := n, translated_subtitles := acc\<rparr>, Some e)
              | (acc, None) \<Rightarrow>
                  (st\<lparr>requests := n, translated_subtitles := acc,
                      files := save_progress acc progress_file (files st)\<rparr>, None)))"

text \<open>\<open>for i in range(0, total_subtitles, batch_size)\<close>, from \<open>i\<close> on.\<close>

function batch_loop ::
  "world \<Rightarrow> translator \<Rightarrow> string \<Rightarrow> subtitle list \<Rightarrow> string \<Rightarrow> nat \<Rightarrow> run_state
   \<Rightarrow> run_state \<times> exn option" where
  "batch_loop w tr target_language subtitles progress_file i st =
     (if i < length subtitles then
        (case batch_step w tr target_language subtitles progress_file i st of
           (st', Some e) \<Rightarrow> (st', Some e)
         | (st', None) \<Rightarrow>
             batch_loop w tr target_language subtitles progress_file (i + batch_size) st')
      else (st, None))"
  by pat_completeness auto
termination
  by (relation "measure (\<lambda>(w, tr, l, subtitles, pf, i, st). length subtitles - i)")
     (auto simp: batch_size_def)

text \<open>
  \<open>translate_subtitles\<close>: the files after the run, and the exception it raised, if any
  (\<open>None\<close>: it returned). Reading an input file that does not exist raises before the
  \<open>try\<close> is entered.
\<close>

definition backed_up :: "world \<Rightarrow> string \<Rightarrow> fs \<Rightarrow> fs" where
  "backed_up w output_file files0 =
     (if output_file \<in> dom files0 then fst (create_backup (clock w) output_file files0)
      else files0)"

definition translate_subtitles ::
  "world \<Rightarrow> translator \<Rightarrow> fs \<Rightarrow> string \<Rightarrow> string \<Rightarrow> string \<Rightarrow> fs \<times> exn option" where
  "translate_subtitles w tr files0 input_file output_file target_language =
     (let files1 = backed_up w output_file files0
      in case files1 input_file of
           None \<Rightarrow> (files1, Some FileNotFoundError)
         | Some content \<Rightarrow>
             (let subtitles = parse_srt content;
                  progress_file = output_file @ ''.progress''
              in case batch_loop w tr target_language subtitles progress_file 0
                        \<lparr>files = files1, requests = 0, translated_subtitles = []\<rparr> of
                   (st, Some KeyboardInterrupt) \<Rightarrow>
                     (save_progress (translated_subtitles st) progress_file (files st), None)
                 | (st, Some e) \<Rightarrow>
                     (save_progress (translated_subtitles st) progress_file (files st), Some e)
                 | (st, None) \<Rightarrow>
                     ((save_progress (translated_subtitles st) output_file (files st))
                        (progress_file := None), None)))"

section \<open>The states a run goes through\<close>

text \<open>
  \<open>reaches w tr l subtitles pf st0 i st\<close>: the loop that started in state \<open>st0\<close> comes
  to the batch that starts at record \<open>i\<close> in state \<open>st\<close>, every batch before it having
  been completed (translated, assigned and saved without an exception).
\<close>

inductive reaches ::
  "world \<Rightarrow> translator \<Rightarrow> string \<Rightarrow> subtitle list \<Rightarrow> string \<Rightarrow> run_state \<Rightarrow> nat \<Rightarrow> run_state
   \<Rightarrow> bool"
  for w tr target_language subtitles progress_file st0 where
  start: "reaches w tr target_language subtitles progress_file st0 0 st0"
| step: "reaches w tr target_language subtitles progress_file st0 i st \<Longrightarrow>
         i < length subtitles \<Longrightarrow>
         batch_step w tr target_language subtitles progress_file i st = (st', None) \<Longrightarrow>
         reaches w tr target_language subtitles progress_file st0 (i + batch_size) st'"

text \<open>The fields of a record that the run passes through: index and time range.\<close>

definition frame :: "subtitle \<Rightarrow> string \<times> string \<times> string" where
  "frame sub = (index sub, start_time sub, end_time sub)"

text \<open>The state in which \<open>translate_subtitles\<close> enters the loop.\<close>

definition start_state :: "world \<Rightarrow> string \<Rightarrow> fs \<Rightarrow> run_state" where
  "start_state w output_file files0 =
     \<lparr>files = backed_up w output_file files0, requests = 0, translated_subtitles = []\<rparr>"

section \<open>Well-formed subtitle blocks\<close>

text \<open>
  A block as the specification describes it: an index line, a time-range line and one
  or more text lines. Every line is ended by a line feed, and a text line is not empty
  (an empty line is the blank line that ends the block).
\<close>

record block =
  block_index :: string
  block_start :: string
  block_end :: string
  block_lines :: "string list"

definition text_line :: "string \<Rightarrow> bool" where
  "text_line l = (l \<noteq> [] \<and> NL \<notin> set l)"

definition well_formed :: "block \<Rightarrow> bool" where
  "well_formed b =
     (block_index b \<noteq> [] \<and> list_all isdigit (block_index b)
      \<and> is_timestamp (block_start b) \<and> is_timestamp (block_end b)
      \<and> block_lines b \<noteq> [] \<and> list_all text_line (block_lines b))"

text \<open>The raw text of a block: its text lines, each with its line feed.\<close>

definition raw_text :: "block \<Rightarrow> string" where
  "raw_text b = concat (map (\<lambda>l. l @ [NL]) (block_lines b))"

definition block_source :: "block \<Rightarrow> string" where
  "block_source b = block_index b @ [NL] @ block_start b @ '' --> '' @ block_end b @ [NL]
                    @ raw_text b"

text \<open>
  An input made of blocks: a blank line after every block but the last, which is ended
  by a blank line (\<open>blank_at_end\<close>) or by the end of the input.
\<close>

fun document :: "bool \<Rightarrow> block list \<Rightarrow> string" where
  "document blank_at_end [] = []"
| "document blank_at_end [b] = block_source b @ (if blank_at_end then [NL] else [])"
| "document blank_at_end (b # b' # bs) = block_source b @ [NL] @ document blank_at_end (b' # bs)"

section \<open>What holds of every parsed record\<close>

text \<open>No two line feeds in a row: the text has no empty line inside.\<close>

fun no_blank_line :: "string \<Rightarrow> bool" where
  "no_blank_line (x # y # r) = (\<not> (x = NL \<and> y = NL) \<and> no_blank_line (y # r))"
| "no_blank_line _ = True"

definition tight :: "string \<Rightarrow> bool" where
  "tight t = (no_blank_line t \<and> (t = [] \<or> (\<not> isspace (hd t) \<and> \<not> isspace (last t))))"

definition record_ok :: "subtitle \<Rightarrow> bool" where
  "record_ok sub =
     (index sub \<noteq> [] \<and> list_all isdigit (index sub) \<and> is_timestamp (start_time sub)
      \<and> is_timestamp (end_time sub) \<and> tight (sub_text sub))"

text \<open>The record a well-formed block is parsed to (lemma \<open>parse_srt_document\<close>).\<close>

definition parsed :: "block \<Rightarrow> subtitle" where
  "parsed b = \<lparr>index = block_index b, start_time = block_start b, end_time = block_end b,
               sub_text = strip (raw_text b)\<rparr>"

section \<open>Example inputs\<close>

definition two_blocks :: string where
  "two_blocks =
     ''1\<newline>00:00:01,000 --> 00:00:02,000\<newline>Hello\<newline>\<newline>2\<newline>00:00:03,000 --> 00:00:04,000\<newline>World\<newline>\<newline>''"

definition six_blocks :: string where
  "six_blocks =
     ''1\<newline>00:00:01,000 --> 00:00:02,000\<newline>a\<newline>\<newline>2\<newline>00:00:02,000 --> 00:00:03,000\<newline>b\<newline>\<newline>3\<newline>00:00:03,000 --> 00:00:04,000\<newline>c\<newline>\<newline>4\<newline>00:00:04,000 --> 00:00:05,000\<newline>d\<newline>\<newline>5\<newline>00:00:05,000 --> 00:00:06,000\<newline>e\<newline>\<newline>6\<newline>00:00:06,000 --> 00:00:07,000\<newline>f\<newline>\<newline>''"

text \<open>A world in which every request is answered with the same text and no signal arrives.\<close>

definition steady :: "string \<Rightarrow> world" where
  "steady answer = \<lparr>post = (\<lambda>n p. Generated answer), sigint = (\<lambda>b j. False),
                     clock = ''20240101_120000''\<rparr>"

text \<open>The same, but in batch \<open>b\<close> a signal arrives after \<open>j\<close> parts were appended.\<close>

definition signalled :: "string \<Rightarrow> nat \<Rightarrow> nat \<Rightarrow> world" where
  "signalled answer b j = (steady answer)\<lparr>sigint := (\<lambda>b' j'. b' = b \<and> j' = j)\<rparr>"

text \<open>A world whose first request is answered and whose later requests are interrupted.\<close>

definition interrupted_later :: "string \<Rightarrow> world" where
  "interrupted_later answer =
     (steady answer)\<lparr>post := (\<lambda>n p. if n = 0 then Generated answer else Interrupted)\<rparr>"

definition five_parts :: string where
  "five_parts = ''A\<newline>---\<newline>B\<newline>---\<newline>C\<newline>---\<newline>D\<newline>---\<newline>E''"

definition block_one :: block where
  "block_one = \<lparr>block_index = ''1'', block_start = ''00:00:01,000'', block_end = ''00:00:02,000'',
                 block_lines = ['' Hello'', ''  '', ''you '']\<rparr>"

definition block_two :: block where
  "block_two = \<lparr>block_index = ''2'', block_start = ''00:00:03,000'', block_end = ''00:00:04,000'',
                 block_lines = [''World'']\<rparr>"

definition empty_state :: run_state where
  "empty_state = \<lparr>files = Map.empty, requests = 0, translated_subtitles = []\<rparr>"

section \<open>Facts about the matcher\<close>

declare ms.simps(8,9) [simp del]

lemma concat_map_singleton: "concat (map (\<lambda>x. [x]) xs) = xs"
  by (induction xs) auto

lemma ms_Eps_fun: "ms Eps = (\<lambda>st. [st])"
  by (rule ext) simp

lemma ms_Cat_Eps: "ms (Cat r Eps) st = ms r st"
  by (simp add: ms_Eps_fun concat_map_singleton)

lemma ms_Star_Digit_Nil: "ms (Star Digit) (g, []) = [(g, [])]"
  by (simp add: ms.simps(8))

lemma ms_Star_Digit_Cons:
  "ms (Star Digit) (g, x # xs) = (if isdigit x then ms (Star Digit) (g, xs) else []) @ [(g, x # xs)]"
  by (simp add: ms.simps(8)[of Digit "(g, x # xs)"])

lemma ms_LazyStar_AnyChar_Nil: "ms (LazyStar AnyChar) (g, []) = [(g, [])]"
  by (simp add: ms.simps(9))

lemma ms_LazyStar_AnyChar_Cons:
  "ms (LazyStar AnyChar) (g, x # xs) =
     (g, x # xs) # (if x \<noteq> NL then ms (LazyStar AnyChar) (g, xs) else [])"
  by (simp add: ms.simps(9)[of AnyChar "(g, x # xs)"])

lemma ms_Star_Digit_then:
  assumes "\<And>g x xs. isdigit x \<Longrightarrow> F (g, x # xs) = []"
  shows "concat (map F (ms (Star Digit) (g, s))) = F (g, dropWhile isdigit s)"
proof (induction s)
  case Nil
  show ?case by (simp add: ms_Star_Digit_Nil)
next
  case (Cons x xs)
  show ?case using Cons assms by (simp add: ms_Star_Digit_Cons)
qed

lemma ms_LazyStar_AnyChar_then:
  assumes "\<And>g x xs. x \<noteq> NL \<Longrightarrow> F (g, x # xs) = []"
  shows "concat (map F (ms (LazyStar AnyChar) (g, s))) = F (g, dropWhile (\<lambda>c. c \<noteq> NL) s)"
proof (induction s)
  case Nil
  show ?case by (simp add: ms_LazyStar_AnyChar_Nil)
next
  case (Cons x xs)
  show ?case using Cons assms by (simp add: ms_LazyStar_AnyChar_Cons)
qed

lemma take_length_dropWhile: "take (length s - length (dropWhile P s)) s = takeWhile P s"
proof -
  have "length s - length (dropWhile P s) = length (takeWhile P s)"
    by (metis add_diff_cancel_right' length_append takeWhile_dropWhile_id)
  then show ?thesis
    by (metis append_eq_conv_conj takeWhile_dropWhile_id)
qed

lemma ms_Lit_NL_dropWhile:
  "ms (Lit NL) (g, dropWhile (\<lambda>c. c \<noteq> NL) s) =
     (case dropWhile (\<lambda>c. c \<noteq> NL) s of [] \<Rightarrow> [] | x # r \<Rightarrow> [(g, r)])"
proof (cases "dropWhile (\<lambda>c. c \<noteq> NL) s")
  case Nil
  then show ?thesis by (simp del: dropWhile_eq_Nil_conv)
next
  case (Cons x r)
  then have "x = NL" using hd_dropWhile[of "\<lambda>c. c \<noteq> NL" s] by auto
  then show ?thesis using Cons by simp
qed

lemma ms_line:
  "ms (Cat (LazyStar AnyChar) (Lit NL)) (g, s) =
     (case dropWhile (\<lambda>c. c \<noteq> NL) s of [] \<Rightarrow> [] | x # r \<Rightarrow> [(g, r)])"
proof -
  have "concat (map (ms (Lit NL)) (ms (LazyStar AnyChar) (g, s))) = ms (Lit NL) (g, dropWhile (\<lambda>c. c \<noteq> NL) s)"
    by (rule ms_LazyStar_AnyChar_then) simp
  then show ?thesis by (simp only: ms.simps(6) ms_Lit_NL_dropWhile)
qed

lemma text_end_False_dropWhile:
  "text_end False s = (case dropWhile (\<lambda>c. c \<noteq> NL) s of [] \<Rightarrow> None | x # r \<Rightarrow> text_end True r)"
  by (induction s) auto

lemma ms_lines_unfold:
  "ms (LazyStar (Cat (LazyStar AnyChar) (Lit NL))) (g, s) =
     (g, s) # (case dropWhile (\<lambda>c. c \<noteq> NL) s of [] \<Rightarrow> []
               | x # r \<Rightarrow> ms (LazyStar (Cat (LazyStar AnyChar) (Lit NL))) (g, r))"
proof (cases "dropWhile (\<lambda>c. c \<noteq> NL) s")
  case Nil
  then show ?thesis
    by (simp add: ms.simps(9)[of "Cat (LazyStar AnyChar) (Lit NL)"] ms_line del: ms.simps(6) dropWhile_eq_Nil_conv)
next
  case (Cons x r)
  have "length (dropWhile (\<lambda>c. c \<noteq> NL) s) \<le> length s" by (rule length_dropWhile_le)
  then have "length r < length s" using Cons by simp
  then show ?thesis using Cons
    by (simp add: ms.simps(9)[of "Cat (LazyStar AnyChar) (Lit NL)"] ms_line del: ms.simps(6))
qed

lemma first_append: "first (xs @ ys) = (case first xs of None \<Rightarrow> first ys | Some x \<Rightarrow> Some x)"
  by (cases xs) (auto simp: first_def)

lemma ms_lines_then:
  assumes rej: "\<And>g x xs. x \<noteq> NL \<Longrightarrow> F (g, x # xs) = []"
    and acc1: "\<And>g. F (g, []) \<noteq> []"
    and acc2: "\<And>g xs. F (g, NL # xs) \<noteq> []"
  shows "first (concat (map F (ms (LazyStar (Cat (LazyStar AnyChar) (Lit NL))) (g, s)))) =
           (case text_end True s of None \<Rightarrow> None | Some s' \<Rightarrow> first (F (g, s')))"
proof (induction s rule: length_induct)
  case (1 s)
  show ?case
  proof (cases s)
    case Nil
    then show ?thesis using acc1[of g]
      by (subst ms_lines_unfold) (auto simp: first_append first_def split: list.splits)
  next
    case (Cons x xs)
    show ?thesis
    proof (cases "x = NL")
      case True
      then show ?thesis using acc2[of g xs] Cons
        by (subst ms_lines_unfold) (auto simp: first_append first_def split: list.splits)
    next
      case False
      show ?thesis
      proof (cases "dropWhile (\<lambda>c. c \<noteq> NL) xs")
        case Nil
        then show ?thesis using False Cons rej[of x g xs]
          by (subst ms_lines_unfold) (simp add: text_end_False_dropWhile first_def del: dropWhile_eq_Nil_conv)
      next
        case dc: (Cons y r)
        have "length (dropWhile (\<lambda>c. c \<noteq> NL) xs) \<le> length xs" by (rule length_dropWhile_le)
        then have "length r < length s" using dc Cons by simp
        then have IH: "first (concat (map F (ms (LazyStar (Cat (LazyStar AnyChar) (Lit NL))) (g, r)))) =
           (case text_end True r of None \<Rightarrow> None | Some s' \<Rightarrow> first (F (g, s')))"
          using 1 by blast
        show ?thesis using False Cons dc rej[of x g xs] IH
          by (subst ms_lines_unfold) (simp add: text_end_False_dropWhile)
      qed
    qed
  qed
qed

lemma ms_char_class:
  "char_class r = Some p \<Longrightarrow>
   ms r (g, s) = (case s of [] \<Rightarrow> [] | x # xs \<Rightarrow> if p x then [(g, xs)] else [])"
  by (cases r) (auto split: list.splits)

lemma fits_Nil: "fits [] s"
  by (simp add: fits_def)

lemma fits_Cons: "fits (p # ps) s = (case s of [] \<Rightarrow> False | x # xs \<Rightarrow> p x \<and> fits ps xs)"
  by (cases s) (auto simp: fits_def)

lemma ms_seq_chars:
  "list_all2 (\<lambda>r p. char_class r = Some p) rs ps \<Longrightarrow>
   ms (seq rs) (g, s) = (if fits ps s then [(g, drop (length ps) s)] else [])"
proof (induction rs ps arbitrary: s rule: list_all2_induct)
  case Nil
  then show ?case by (simp add: fits_Nil)
next
  case (Cons r rs p ps)
  show ?case
  proof (cases s)
    case Nil
    then show ?thesis using Cons.hyps(1) by (simp add: ms_char_class fits_Cons)
  next
    case (Cons x xs)
    then show ?thesis using Cons.hyps(1) Cons.IH[of xs]
      by (simp add: ms_char_class fits_Cons)
  qed
qed

lemma fits_length: "fits ps s \<Longrightarrow> length ps \<le> length s"
  by (simp add: fits_def)

lemma ms_chars_then:
  assumes "list_all2 (\<lambda>r p. char_class r = Some p) rs ps"
  shows "ms (Cat (seq rs) R) (g, s) = (if fits ps s then ms R (g, drop (length ps) s) else [])"
  by (simp add: ms_seq_chars[OF assms])

lemma ms_group_chars_then:
  assumes "list_all2 (\<lambda>r p. char_class r = Some p) rs ps"
  shows "ms (Cat (Group n (seq rs)) R) (g, s) =
           (if fits ps s then ms R ((n, take (length ps) s) # g, drop (length ps) s) else [])"
  using fits_length[of ps s] by (simp add: ms_seq_chars[OF assms])

lemma timestamp_classes:
  "list_all2 (\<lambda>r p. char_class r = Some p)
     [Digit, Digit, Lit CHR '':'', Digit, Digit, Lit CHR '':'', Digit, Digit,
      Lit CHR '','', Digit, Digit, Digit] timestamp_shape"
  by (simp add: timestamp_shape_def)

lemma arrow_classes:
  "list_all2 (\<lambda>r p. char_class r = Some p) (map Lit t) (map (\<lambda>c x. x = c) t)"
  by (induction t) auto

lemma fits_literal: "fits (map (\<lambda>c x. x = c) t) s = (take (length t) s = t)"
proof (induction t arbitrary: s)
  case Nil
  then show ?case by (simp add: fits_Nil)
next
  case (Cons c t)
  then show ?case by (cases s) (auto simp: fits_Cons)
qed

lemma fits_timestamp: "fits timestamp_shape s = is_timestamp (take 12 s)"
proof -
  have l: "length timestamp_shape = 12" by (simp add: timestamp_shape_def)
  show ?thesis
    unfolding fits_def is_timestamp_def l
    using list_all2_lengthD[of "\<lambda>p c. p c" timestamp_shape "take 12 s"] l by auto
qed

lemma ms_Lit_then:
  "ms (Cat (Lit c) R) (g, s) = (if take 1 s = [c] then ms R (g, drop 1 s) else [])"
  by (cases s) auto

lemma ms_timestamp_group_then:
  "ms (Cat (Group n timestamp) R) (g, s) =
     (if is_timestamp (take 12 s) then ms R ((n, take 12 s) # g, drop 12 s) else [])"
proof -
  have l: "length timestamp_shape = 12" by (simp add: timestamp_shape_def)
  show ?thesis
    unfolding timestamp_def ms_group_chars_then[OF timestamp_classes] fits_timestamp l ..
qed

lemma ms_arrow_then:
  "ms (Cat (seq (map Lit '' --> '')) R) (g, s) =
     (if take 5 s = '' --> '' then ms R (g, drop 5 s) else [])"
proof -
  have l: "length (map (\<lambda>c x. x = c) '' --> '') = 5" "length '' --> '' = 5" by simp_all
  show ?thesis
    unfolding ms_chars_then[OF arrow_classes] fits_literal l ..
qed

lemma ms_index_group_then:
  assumes "\<And>g x xs. isdigit x \<Longrightarrow> ms R (g, x # xs) = []"
  shows "ms (Cat (Group n (Cat Digit (Star Digit))) R) (g, s) =
           (if takeWhile isdigit s \<noteq> [] then ms R ((n, takeWhile isdigit s) # g, dropWhile isdigit s)
            else [])"
proof (cases s)
  case Nil
  then show ?thesis by simp
next
  case (Cons x xs)
  show ?thesis
  proof (cases "isdigit x")
    case False
    then show ?thesis using Cons by simp
  next
    case True
    define F where
      "F = (\<lambda>st'. ms R ((n, take (length s - length (snd st')) s) # fst st', snd st'))"
    have rej: "\<And>g y ys. isdigit y \<Longrightarrow> F (g, y # ys) = []"
      by (simp add: F_def assms)
    have "ms (Cat (Group n (Cat Digit (Star Digit))) R) (g, s) =
            concat (map F (ms (Star Digit) (g, xs)))"
      using Cons True by (simp add: F_def comp_def)
    also have "\<dots> = F (g, dropWhile isdigit xs)"
      by (rule ms_Star_Digit_then[of F, OF rej])
    also have "\<dots> = ms R ((n, takeWhile isdigit s) # g, dropWhile isdigit s)"
      using take_length_dropWhile[of s isdigit] Cons True by (simp add: F_def)
    finally show ?thesis using Cons True by simp
  qed
qed

lemma text_end_shape: "text_end b s = Some s' \<Longrightarrow> take 1 s' = [] \<or> take 1 s' = [NL]"
  by (induction b s rule: text_end.induct) (auto split: if_splits)

lemma ms_text_group_end:
  "first (ms (Cat (Group 4 (LazyStar (Cat (LazyStar AnyChar) (Lit NL)))) (Cat (Alt (Lit NL) EndOfLine) Eps)) (g, s)) =
     (case text_end True s of None \<Rightarrow> None
      | Some s' \<Rightarrow> Some ((4, take (length s - length s') s) # g, drop 1 s'))"
proof -
  define F where
    "F = (\<lambda>st'. ms (Alt (Lit NL) EndOfLine) ((4::nat, take (length s - length (snd st')) s) # fst st', snd st'))"
  have rej: "\<And>g x xs. x \<noteq> NL \<Longrightarrow> F (g, x # xs) = []" by (simp add: F_def)
  have acc1: "\<And>g. F (g, []) \<noteq> []" by (simp add: F_def)
  have acc2: "\<And>g xs. F (g, NL # xs) \<noteq> []" by (simp add: F_def)
  have "ms (Cat (Group 4 (LazyStar (Cat (LazyStar AnyChar) (Lit NL)))) (Cat (Alt (Lit NL) EndOfLine) Eps)) (g, s)
          = concat (map F (ms (LazyStar (Cat (LazyStar AnyChar) (Lit NL))) (g, s)))"
    by (simp only: ms.simps(6)[of "Group 4 _"] ms.simps(10) map_map comp_def ms_Cat_Eps F_def fst_conv snd_conv)
  then have "first (ms (Cat (Group 4 (LazyStar (Cat (LazyStar AnyChar) (Lit NL)))) (Cat (Alt (Lit NL) EndOfLine) Eps)) (g, s))
          = (case text_end True s of None \<Rightarrow> None | Some s' \<Rightarrow> first (F (g, s')))"
    using ms_lines_then[of F, OF rej acc1 acc2] by simp
  moreover have "text_end True s = Some s' \<Longrightarrow> first (F (g, s')) = Some ((4, take (length s - length s') s) # g, drop 1 s')" for s'
    using text_end_shape[of True s s'] by (cases s') (auto simp: F_def first_def)
  ultimately show ?thesis by (simp split: option.splits)
qed

lemma first_Nil: "first [] = None"
  by (simp add: first_def)

lemma match_at_subtitle_pattern: "match_at subtitle_pattern s = match_direct s"
proof -
  let ?R7 = "Cat (Group 4 (LazyStar (Cat (LazyStar AnyChar) (Lit NL)))) (Cat (Alt (Lit NL) EndOfLine) Eps)"
  let ?R6 = "Cat (Lit NL) ?R7"
  let ?R5 = "Cat (Group 3 timestamp) ?R6"
  let ?R4 = "Cat (seq (map Lit '' --> '')) ?R5"
  let ?R3 = "Cat (Group 2 timestamp) ?R4"
  let ?R2 = "Cat (Lit NL) ?R3"
  let ?R1 = "Cat (Group 1 (Cat Digit (Star Digit))) ?R2"
  have P: "subtitle_pattern = ?R1"
    unfolding subtitle_pattern_def seq.simps ..
  have rej: "\<And>g x xs. isdigit x \<Longrightarrow> ms ?R2 (g, x # xs) = []"
    by (auto simp: ms_Lit_then isdigit_def NL_def)
  have m: "match_at subtitle_pattern s = first (ms ?R1 ([], s))"
    unfolding match_at_def first_def P ..
  define idx where "idx = takeWhile isdigit s"
  define s0 where "s0 = dropWhile isdigit s"
  define s1 where "s1 = drop 1 s0"
  define body where "body = drop 30 s1"
  have 1: "ms ?R1 ([], s) = (if idx \<noteq> [] then ms ?R2 ([(1, idx)], s0) else [])"
    unfolding idx_def s0_def by (rule ms_index_group_then[OF rej])
  have 2: "ms ?R2 ([(1, idx)], s0) = (if take 1 s0 = [NL] then ms ?R3 ([(1, idx)], s1) else [])"
    unfolding s1_def by (rule ms_Lit_then)
  have 3: "ms ?R3 ([(1, idx)], s1) =
             (if is_timestamp (take 12 s1) then ms ?R4 ([(2, take 12 s1), (1, idx)], drop 12 s1) else [])"
    by (rule ms_timestamp_group_then)
  have 4: "ms ?R4 ([(2, take 12 s1), (1, idx)], drop 12 s1) =
             (if take 5 (drop 12 s1) = '' --> '' then ms ?R5 ([(2, take 12 s1), (1, idx)], drop 17 s1) else [])"
    unfolding ms_arrow_then by simp
  have 5: "ms ?R5 ([(2, take 12 s1), (1, idx)], drop 17 s1) =
             (if is_timestamp (take 12 (drop 17 s1))
              then ms ?R6 ([(3, take 12 (drop 17 s1)), (2, take 12 s1), (1, idx)], drop 29 s1) else [])"
    unfolding ms_timestamp_group_then by simp
  have 6: "ms ?R6 ([(3, take 12 (drop 17 s1)), (2, take 12 s1), (1, idx)], drop 29 s1) =
             (if take 1 (drop 29 s1) = [NL]
              then ms ?R7 ([(3, take 12 (drop 17 s1)), (2, take 12 s1), (1, idx)], body) else [])"
    unfolding ms_Lit_then body_def by simp
  have 7: "first (ms ?R7 ([(3, take 12 (drop 17 s1)), (2, take 12 s1), (1, idx)], body)) =
             (case text_end True body of None \<Rightarrow> None
              | Some s3 \<Rightarrow> Some ([(4, take (length body - length s3) body), (3, take 12 (drop 17 s1)),
                                   (2, take 12 s1), (1, idx)], drop 1 s3))"
    by (rule ms_text_group_end)
  have d: "match_direct s =
     (if idx \<noteq> [] \<and> take 1 s0 = [NL] \<and> is_timestamp (take 12 s1)
         \<and> take 5 (drop 12 s1) = '' --> '' \<and> is_timestamp (take 12 (drop 17 s1))
         \<and> take 1 (drop 29 s1) = [NL]
      then (case text_end True body of
              None \<Rightarrow> None
            | Some s3 \<Rightarrow>
                Some ([(4, take (length body - length s3) body), (3, take 12 (drop 17 s1)),
                       (2, take 12 s1), (1, idx)], drop 1 s3))
      else None)"
    unfolding match_direct_def Let_def idx_def s0_def s1_def body_def ..
  show ?thesis
    unfolding m d 1 2 3 4 5 6
    by (simp only: 7 first_Nil split: if_splits) simp
qed

section \<open>Facts about the parser\<close>

declare finditer.simps [simp del]

lemma text_end_suffix: "text_end b s = Some s' \<Longrightarrow> length s' \<le> length s"
  by (induction b s rule: text_end.induct) (auto split: if_splits)

lemma match_direct_shorter:
  assumes "match_direct s = Some (g, rest)"
  shows "length rest < length s"
proof -
  define body where "body = drop 30 (drop 1 (dropWhile isdigit s))"
  from assms obtain s3 where idx: "takeWhile isdigit s \<noteq> []" and te: "text_end True body = Some s3"
    and rest: "rest = drop 1 s3"
    unfolding match_direct_def Let_def body_def
    by (auto split: if_splits option.splits)
  have "length (takeWhile isdigit s) + length (dropWhile isdigit s) = length s"
    by (metis length_append takeWhile_dropWhile_id)
  moreover have "0 < length (takeWhile isdigit s)" using idx by blast
  ultimately have "length (dropWhile isdigit s) < length s" by linarith
  moreover have "length rest \<le> length body" using text_end_suffix[OF te] rest by simp
  moreover have "length body \<le> length (dropWhile isdigit s)" by (simp add: body_def)
  ultimately show ?thesis by simp
qed

lemma finditer_match:
  "match_direct s = Some (g, rest) \<Longrightarrow>
   finditer subtitle_pattern s = g # finditer subtitle_pattern rest"
  using match_direct_shorter[of s g rest]
  by (subst finditer.simps) (simp add: match_at_subtitle_pattern)

lemma finditer_no_match:
  "match_direct (x # xs) = None \<Longrightarrow>
   finditer subtitle_pattern (x # xs) = finditer subtitle_pattern xs"
  by (subst finditer.simps) (simp add: match_at_subtitle_pattern)

lemma match_direct_Nil: "match_direct [] = None"
  by (simp add: match_direct_def)

lemma finditer_Nil: "finditer subtitle_pattern [] = []"
  by (subst finditer.simps) (simp add: match_at_subtitle_pattern match_direct_Nil)

lemma match_direct_no_digit: "\<not> isdigit x \<Longrightarrow> match_direct (x # xs) = None"
  by (simp add: match_direct_def)

lemma not_isdigit_NL: "\<not> isdigit NL"
  by (simp add: isdigit_def NL_def)

lemma finditer_skip_NL: "finditer subtitle_pattern (NL # s) = finditer subtitle_pattern s"
  by (simp add: finditer_no_match match_direct_no_digit not_isdigit_NL)

lemma is_timestamp_length: "is_timestamp t \<Longrightarrow> length t = 12"
  unfolding is_timestamp_def
  using list_all2_lengthD[of "\<lambda>p c. p c" timestamp_shape t]
  by (simp add: timestamp_shape_def)

lemma takeWhile_digits:
  "list_all isdigit idx \<Longrightarrow> takeWhile isdigit (idx @ NL # r) = idx"
  by (induction idx) (auto simp: not_isdigit_NL)

lemma dropWhile_digits:
  "list_all isdigit idx \<Longrightarrow> dropWhile isdigit (idx @ NL # r) = NL # r"
  by (induction idx) (auto simp: not_isdigit_NL)

lemma match_direct_header:
  assumes "idx \<noteq> []" "list_all isdigit idx" "is_timestamp st" "is_timestamp en"
  shows "match_direct (idx @ [NL] @ st @ '' --> '' @ en @ [NL] @ body) =
           (case text_end True body of
              None \<Rightarrow> None
            | Some s3 \<Rightarrow>
                Some ([(4, take (length body - length s3) body), (3, en), (2, st), (1, idx)],
                      drop 1 s3))"
proof -
  let ?s = "idx @ [NL] @ st @ '' --> '' @ en @ [NL] @ body"
  have a: "takeWhile isdigit ?s = idx" using takeWhile_digits[OF assms(2)] by simp
  have b: "dropWhile isdigit ?s = NL # st @ '' --> '' @ en @ [NL] @ body"
    using dropWhile_digits[OF assms(2)] by simp
  have ls: "length st = 12" and le: "length en = 12"
    using assms(3,4) by (simp_all add: is_timestamp_length)
  show ?thesis
    unfolding match_direct_def Let_def a b
    using assms(1,3,4) ls le by (simp split: option.splits)
qed

lemma text_end_in_line:
  "NL \<notin> set l \<Longrightarrow> text_end False (l @ NL # r) = text_end True r"
  by (induction l) auto

lemma text_end_line:
  "text_line l \<Longrightarrow> text_end True (l @ NL # r) = text_end True r"
  by (cases l) (auto simp: text_line_def text_end_in_line)

lemma text_end_lines:
  "list_all text_line ls \<Longrightarrow>
   text_end True (concat (map (\<lambda>l. l @ [NL]) ls) @ r) = text_end True r"
  by (induction ls) (auto simp: text_end_line)

lemma text_end_stop: "take 1 r \<noteq> [] \<Longrightarrow> take 1 r = [NL] \<Longrightarrow> text_end True r = Some r"
  by (cases r) auto

lemma record_of_groups:
  "record_of [(4, a), (3, b), (2, c), (1, d)] =
     \<lparr>index = d, start_time = c, end_time = b, sub_text = strip a\<rparr>"
  "record_of [(4, a), (3, b), (2, c), (Suc 0, d)] =
     \<lparr>index = d, start_time = c, end_time = b, sub_text = strip a\<rparr>"
  by (simp_all add: record_of_def match_group_def)

lemma match_direct_block:
  assumes "well_formed b" and "r = [] \<or> take 1 r = [NL]"
  shows "\<exists>g. match_direct (block_source b @ r) = Some (g, drop 1 r) \<and> record_of g = parsed b"
proof -
  have wf: "block_index b \<noteq> []" "list_all isdigit (block_index b)"
    "is_timestamp (block_start b)" "is_timestamp (block_end b)" "list_all text_line (block_lines b)"
    using assms(1) by (simp_all add: well_formed_def)
  have te: "text_end True (raw_text b @ r) = Some r"
  proof -
    have "text_end True (raw_text b @ r) = text_end True r"
      unfolding raw_text_def by (rule text_end_lines[OF wf(5)])
    also have "\<dots> = Some r" using assms(2) by (cases r) auto
    finally show ?thesis .
  qed
  have "block_source b @ r =
          block_index b @ [NL] @ block_start b @ '' --> '' @ block_end b @ [NL] @ (raw_text b @ r)"
    by (simp add: block_source_def)
  then have "match_direct (block_source b @ r) =
          Some ([(4, take (length (raw_text b @ r) - length r) (raw_text b @ r)),
                 (3, block_end b), (2, block_start b), (1, block_index b)], drop 1 r)"
    using match_direct_header[OF wf(1-4), of "raw_text b @ r"] te by simp
  then show ?thesis
    by (simp add: record_of_groups parsed_def)
qed

lemma parse_srt_document:
  "list_all well_formed bs \<Longrightarrow> parse_srt (document e bs) = map parsed bs"
proof (induction e bs rule: document.induct)
  case (1 e)
  show ?case by (simp add: parse_srt_def finditer_Nil)
next
  case (2 e b)
  then have wf: "well_formed b" by simp
  obtain g where g: "match_direct (block_source b @ (if e then [NL] else [])) = Some (g, [])"
    "record_of g = parsed b"
    using match_direct_block[OF wf, of "if e then [NL] else []"] by (cases e) auto
  show ?case
    using finditer_match[OF g(1)] g(2) by (simp add: parse_srt_def finditer_Nil)
next
  case (3 e b b' bs)
  then have wf: "well_formed b" and rest: "list_all well_formed (b' # bs)" by simp_all
  obtain g where g: "match_direct (block_source b @ (NL # document e (b' # bs))) =
                       Some (g, document e (b' # bs))"
    "record_of g = parsed b"
    using match_direct_block[OF wf, of "NL # document e (b' # bs)"] by auto
  show ?case
    using finditer_match[OF g(1)] g(2) "3.IH"[OF rest] by (simp add: parse_srt_def)
qed

section \<open>Parsing what was serialized\<close>

lemma no_blank_line_Cons:
  "no_blank_line (x # xs) = (\<not> (x = NL \<and> take 1 xs = [NL]) \<and> no_blank_line xs)"
  by (cases xs) auto

lemma text_end_consumed:
  "text_end b s = Some s' \<Longrightarrow>
   \<exists>a. s = a @ s' \<and> no_blank_line a \<and> (b \<longrightarrow> take 1 a \<noteq> [NL])"
proof (induction b s rule: text_end.induct)
  case 1
  then show ?case by simp
next
  case 2
  then show ?case by simp
next
  case (3 x xs)
  show ?case
  proof (cases "x = NL")
    case True
    then have "s' = x # xs" using 3 by simp
    then show ?thesis by simp
  next
    case False
    then have "text_end False xs = Some s'" using 3 by simp
    then obtain a where "xs = a @ s'" "no_blank_line a" using 3 False by auto
    then have "x # xs = (x # a) @ s' \<and> no_blank_line (x # a) \<and> take 1 (x # a) \<noteq> [NL]"
      using False by (simp add: no_blank_line_Cons)
    then show ?thesis by blast
  qed
next
  case (4 x xs)
  show ?case
  proof (cases "x = NL")
    case True
    then have "text_end True xs = Some s'" using 4 by simp
    then obtain a where "xs = a @ s'" "no_blank_line a" "take 1 a \<noteq> [NL]" using 4 True by auto
    then have "x # xs = (x # a) @ s' \<and> no_blank_line (x # a)"
      by (simp add: no_blank_line_Cons)
    then show ?thesis by blast
  next
    case False
    then have "text_end False xs = Some s'" using 4 by simp
    then obtain a where "xs = a @ s'" "no_blank_line a" using 4 False by auto
    then have "x # xs = (x # a) @ s' \<and> no_blank_line (x # a)"
      using False by (simp add: no_blank_line_Cons)
    then show ?thesis by blast
  qed
qed

lemma no_blank_line_tl: "no_blank_line (x # xs) \<Longrightarrow> no_blank_line xs"
  by (simp add: no_blank_line_Cons)

lemma no_blank_line_suffix: "no_blank_line (a @ m) \<Longrightarrow> no_blank_line m"
  by (induction a) (auto dest: no_blank_line_tl)

lemma no_blank_line_prefix: "no_blank_line (m @ b) \<Longrightarrow> no_blank_line m"
proof (induction m rule: no_blank_line.induct)
  case (1 x y r)
  then show ?case by simp
qed simp_all

lemma strip_middle: "\<exists>a b. s = a @ strip s @ b"
proof -
  define u where "u = dropWhile isspace s"
  have 1: "s = takeWhile isspace s @ u" by (simp add: u_def)
  have "u = rev (takeWhile isspace (rev u) @ dropWhile isspace (rev u))" by simp
  also have "\<dots> = rev (dropWhile isspace (rev u)) @ rev (takeWhile isspace (rev u))"
    by (rule rev_append)
  finally have 2: "u = strip s @ rev (takeWhile isspace (rev u))"
    unfolding strip_def u_def .
  show ?thesis using 1 2 by metis
qed

lemma no_blank_line_strip: "no_blank_line s \<Longrightarrow> no_blank_line (strip s)"
proof -
  assume a: "no_blank_line s"
  obtain p q where "s = p @ strip s @ q" using strip_middle by blast
  then have "no_blank_line (p @ strip s @ q)" using a by simp
  then show ?thesis using no_blank_line_suffix no_blank_line_prefix by blast
qed

lemma last_dropWhile: "dropWhile P xs \<noteq> [] \<Longrightarrow> last (dropWhile P xs) = last xs"
  by (metis last_appendR takeWhile_dropWhile_id)

lemma strip_ends:
  assumes "strip s \<noteq> []"
  shows "\<not> isspace (hd (strip s)) \<and> \<not> isspace (last (strip s))"
proof -
  define u where "u = dropWhile isspace s"
  define v where "v = dropWhile isspace (rev u)"
  have sv: "strip s = rev v" by (simp add: strip_def u_def v_def)
  then have v: "v \<noteq> []" using assms by simp
  then have u: "u \<noteq> []" by (auto simp: v_def)
  have "\<not> isspace (hd v)" unfolding v_def using v hd_dropWhile[of isspace "rev u"] v_def by blast
  then have l: "\<not> isspace (last (strip s))" using sv v by (simp add: last_rev)
  have "last v = last (rev u)" unfolding v_def using v last_dropWhile[of isspace "rev u"] v_def by blast
  then have "hd (strip s) = hd u" using sv v u by (simp add: hd_rev last_rev)
  moreover have "\<not> isspace (hd u)" unfolding u_def using u hd_dropWhile[of isspace s] u_def by blast
  ultimately show ?thesis using l by simp
qed

lemma tight_strip: "no_blank_line s \<Longrightarrow> tight (strip s)"
  using strip_ends[of s] by (auto simp: tight_def no_blank_line_strip)

lemma strip_tight:
  assumes "t \<noteq> []" "\<not> isspace (hd t)" "\<not> isspace (last t)"
  shows "strip (t @ [NL]) = t"
proof -
  have 1: "dropWhile isspace (t @ [NL]) = t @ [NL]" using assms(1,2) by (cases t) auto
  have 2: "dropWhile isspace (rev t) = rev t" using assms(1,3) by (cases "rev t") (auto simp: last_rev hd_rev)
  have sp: "isspace NL" by (simp add: isspace_def NL_def)
  show ?thesis unfolding strip_def 1 using 2 sp by simp
qed

lemma list_all_takeWhile: "list_all P (takeWhile P s)"
  by (induction s) auto

lemma match_direct_ok:
  assumes "match_direct s = Some (g, rest)"
  shows "record_ok (record_of g)"
proof -
  define s1 where "s1 = drop 1 (dropWhile isdigit s)"
  define body where "body = drop 30 s1"
  from assms obtain s3 where idx: "takeWhile isdigit s \<noteq> []"
    and ts: "is_timestamp (take 12 s1)" "is_timestamp (take 12 (drop 17 s1))"
    and te: "text_end True body = Some s3"
    and g: "g = [(4, take (length body - length s3) body), (3, take 12 (drop 17 s1)),
                 (2, take 12 s1), (1, takeWhile isdigit s)]"
    unfolding match_direct_def Let_def body_def s1_def
    by (auto split: if_splits option.splits)
  obtain a where a: "body = a @ s3" "no_blank_line a"
    using text_end_consumed[OF te] by blast
  then have "take (length body - length s3) body = a" by simp
  then have "record_of g = \<lparr>index = takeWhile isdigit s, start_time = take 12 s1,
                             end_time = take 12 (drop 17 s1), sub_text = strip a\<rparr>"
    using g by (simp add: record_of_groups)
  then show ?thesis
    using idx ts a(2) by (simp add: record_ok_def list_all_takeWhile tight_strip)
qed

lemma finditer_ok: "list_all (\<lambda>g. record_ok (record_of g)) (finditer subtitle_pattern s)"
proof (induction s rule: length_induct)
  case (1 s)
  show ?case
  proof (cases "match_direct s")
    case None
    show ?thesis
    proof (cases s)
      case Nil
      then show ?thesis by (simp add: finditer_Nil)
    next
      case (Cons x xs)
      then show ?thesis using None 1 by (simp add: finditer_no_match)
    qed
  next
    case (Some st)
    obtain g rest where st: "st = (g, rest)" by (cases st)
    have m: "match_direct s = Some (g, rest)" using Some st by simp
    have "length rest < length s" by (rule match_direct_shorter[OF m])
    then have "list_all (\<lambda>g. record_ok (record_of g)) (finditer subtitle_pattern rest)"
      using 1 by blast
    then show ?thesis using finditer_match[OF m] match_direct_ok[OF m] by simp
  qed
qed

lemma parse_srt_ok: "list_all record_ok (parse_srt content)"
  using finditer_ok[of content] by (simp add: parse_srt_def list_all_iff)

lemma text_end_tight:
  "t \<noteq> [] \<Longrightarrow> no_blank_line t \<Longrightarrow> last t \<noteq> NL \<Longrightarrow> (b \<Longrightarrow> hd t \<noteq> NL) \<Longrightarrow>
   text_end b (t @ NL # NL # r) = Some (NL # r)"
proof (induction t arbitrary: b)
  case Nil
  then show ?case by simp
next
  case (Cons x t)
  show ?case
  proof (cases t)
    case Nil
    then have "x \<noteq> NL" using Cons.prems(3) by simp
    then show ?thesis using Nil by (cases b) auto
  next
    case (Cons y t')
    have nb: "no_blank_line t" using Cons.prems(2) by (rule no_blank_line_tl)
    have lt: "last t \<noteq> NL" using Cons.prems(3) Cons by simp
    have tn: "t \<noteq> []" using Cons by simp
    show ?thesis
    proof (cases "x = NL")
      case True
      then have y: "hd t \<noteq> NL" using Cons.prems(2) Cons by simp
      have nb': "\<not> b" using True Cons.prems(4) by auto
      have "text_end True (t @ NL # NL # r) = Some (NL # r)"
        using Cons.IH[OF tn nb lt, of True] y by simp
      then show ?thesis using True nb' by simp
    next
      case False
      have "text_end False (t @ NL # NL # r) = Some (NL # r)"
        using Cons.IH[OF tn nb lt, of False] by simp
      then show ?thesis using False by (cases b) auto
    qed
  qed
qed

lemma isspace_NL: "isspace NL"
  by (simp add: isspace_def NL_def)

lemma finditer_render:
  assumes "record_ok sub"
  shows "finditer subtitle_pattern (render sub @ r) = 
           [(4, if sub_text sub = [] then [] else sub_text sub @ [NL]), (3, end_time sub),
            (2, start_time sub), (1, index sub)] # finditer subtitle_pattern r"
proof -
  have ok: "index sub \<noteq> []" "list_all isdigit (index sub)" "is_timestamp (start_time sub)"
    "is_timestamp (end_time sub)" "tight (sub_text sub)"
    using assms by (simp_all add: record_ok_def)
  let ?body = "sub_text sub @ [NL, NL] @ r"
  have src: "render sub @ r =
          index sub @ [NL] @ start_time sub @ '' --> '' @ end_time sub @ [NL] @ ?body"
    by (simp add: render_def)
  show ?thesis
  proof (cases "sub_text sub = []")
    case True
    then have te: "text_end True ?body = Some (NL # NL # r)" by simp
    have "match_direct (render sub @ r) =
            Some ([(4, []), (3, end_time sub), (2, start_time sub), (1, index sub)], NL # r)"
      unfolding src using match_direct_header[OF ok(1-4), of ?body] te True by simp
    then show ?thesis using True by (simp add: finditer_match finditer_skip_NL)
  next
    case False
    then have ends: "\<not> isspace (hd (sub_text sub))" "\<not> isspace (last (sub_text sub))"
      and nb: "no_blank_line (sub_text sub)"
      using ok(5) by (simp_all add: tight_def)
    have "hd (sub_text sub) \<noteq> NL" "last (sub_text sub) \<noteq> NL"
      using ends isspace_NL by auto
    then have te: "text_end True ?body = Some (NL # r)"
      using text_end_tight[OF False nb, of True r] by simp
    have "match_direct (render sub @ r) =
            Some ([(4, sub_text sub @ [NL]), (3, end_time sub), (2, start_time sub), (1, index sub)], r)"
      unfolding src using match_direct_header[OF ok(1-4), of ?body] te by simp
    then show ?thesis using False by (simp add: finditer_match)
  qed
qed

lemma record_of_render:
  assumes "record_ok sub"
  shows "record_of [(4, if sub_text sub = [] then [] else sub_text sub @ [NL]), (3, end_time sub),
            (2, start_time sub), (1, index sub)] = sub"
proof -
  have "strip (if sub_text sub = [] then [] else sub_text sub @ [NL]) = sub_text sub"
  proof (cases "sub_text sub = []")
    case True
    then show ?thesis by (simp add: strip_def)
  next
    case False
    then show ?thesis using assms strip_tight[of "sub_text sub"]
      by (simp add: record_ok_def tight_def)
  qed
  then show ?thesis by (simp add: record_of_groups)
qed

lemma parse_srt_serialize:
  "list_all record_ok subs \<Longrightarrow> parse_srt (serialize subs) = subs"
proof (induction subs)
  case Nil
  show ?case by (simp add: serialize_def parse_srt_def finditer_Nil)
next
  case (Cons sub subs)
  then have ok: "record_ok sub" and IH: "parse_srt (serialize subs) = subs" by simp_all
  have "serialize (sub # subs) = render sub @ serialize subs" by (simp add: serialize_def)
  then show ?case
    using finditer_render[OF ok, of "serialize subs"] record_of_render[OF ok] IH
    by (simp add: parse_srt_def)
qed

text \<open>
  C1. Serializing the records that the parser produced and parsing the serialized text
  again gives the same sequence of records. It holds for every input text, valid or not:
  whatever the parser returns satisfies \<open>record_ok\<close>, and such records survive the round
  trip.
\<close>

theorem parse_serialize_parse:
  "parse_srt (serialize (parse_srt content)) = parse_srt content"
  by (rule parse_srt_serialize[OF parse_srt_ok])

theorem parse_serialize_parse_witness:
  "parse_srt (serialize (parse_srt
       ''x12\<newline>00:00:01,000 --> 00:00:02,000\<newline> Hello\<newline>you \<newline>\<newline>junk\<newline>''))
   = [\<lparr>index = ''12'', start_time = ''00:00:01,000'', end_time = ''00:00:02,000'',
        sub_text = ''Hello\<newline>you''\<rparr>]"
proof -
  have "parse_srt ''x12\<newline>00:00:01,000 --> 00:00:02,000\<newline> Hello\<newline>you \<newline>\<newline>junk\<newline>''
        = [\<lparr>index = ''12'', start_time = ''00:00:01,000'', end_time = ''00:00:02,000'',
             sub_text = ''Hello\<newline>you''\<rparr>]"
    by code_simp
  then show ?thesis
    using parse_serialize_parse
      [of "''x12\<newline>00:00:01,000 --> 00:00:02,000\<newline> Hello\<newline>you \<newline>\<newline>junk\<newline>''"]
    by simp
qed

section \<open>Facts about the orchestrator\<close>

declare batch_loop.simps [simp del]

lemma assign_parts_quiet:
  assumes "\<forall>k. j \<le> k \<and> k \<le> j + length parts \<longrightarrow> \<not> sig k" and "j \<le> length batch"
  shows "assign_parts sig batch j parts acc =
           (acc @ map2 retext (drop j batch) parts,
            if j + length parts \<le> length batch then None else Some IndexError)"
  using assms
proof (induction parts arbitrary: j acc)
  case Nil
  then show ?case by simp
next
  case (Cons part parts)
  have nosig: "\<not> sig j" using Cons.prems(1) by simp
  show ?case
  proof (cases "j < length batch")
    case True
    have step: "\<forall>k. Suc j \<le> k \<and> k \<le> Suc j + length parts \<longrightarrow> \<not> sig k"
      using Cons.prems(1) by simp
    have d: "drop j batch = batch ! j # drop (Suc j) batch"
      using True by (simp add: Cons_nth_drop_Suc)
    show ?thesis
      using True nosig Cons.IH[OF step, of "acc @ [retext (batch ! j) part]"]
      by (simp add: d)
  next
    case False
    then have "j = length batch" using Cons.prems(2) by simp
    then show ?thesis using nosig by simp
  qed
qed

lemma assign_parts_interrupted:
  assumes "\<forall>k < m. \<not> sig (j + k)" and "sig (j + m)" and "m \<le> length parts"
    and "j + m \<le> length batch"
  shows "assign_parts sig batch j parts acc =
           (acc @ map2 retext (drop j batch) (take m parts), Some KeyboardInterrupt)"
  using assms
proof (induction parts arbitrary: j acc m)
  case Nil
  then show ?case by simp
next
  case (Cons part parts)
  show ?case
  proof (cases m)
    case 0
    then show ?thesis using Cons.prems by simp
  next
    case (Suc m')
    have nosig: "\<not> sig j" using Cons.prems(1) Suc by force
    have lt: "j < length batch" using Cons.prems(4) Suc by simp
    have a: "\<forall>k < m'. \<not> sig (Suc j + k)" using Cons.prems(1) Suc by force
    have b: "sig (Suc j + m')" using Cons.prems(2) Suc by simp
    have c: "m' \<le> length parts" using Cons.prems(3) Suc by simp
    have e: "Suc j + m' \<le> length batch" using Cons.prems(4) Suc by simp
    have d: "drop j batch = batch ! j # drop (Suc j) batch"
      using lt by (simp add: Cons_nth_drop_Suc)
    show ?thesis
      using nosig lt Cons.IH[OF a b c e, of "acc @ [retext (batch ! j) part]"] Suc
      by (simp add: d)
  qed
qed

lemma assign_parts_completed:
  "assign_parts sig batch j parts acc = (acc', None) \<Longrightarrow> j \<le> length batch \<Longrightarrow>
   acc' = acc @ map2 retext (drop j batch) parts \<and> j + length parts \<le> length batch"
proof (induction parts arbitrary: j acc)
  case Nil
  then show ?case by (simp split: if_splits)
next
  case (Cons part parts)
  then have lt: "j < length batch" and nosig: "\<not> sig j"
    and rec: "assign_parts sig batch (Suc j) parts (acc @ [retext (batch ! j) part]) = (acc', None)"
    by (auto split: if_splits)
  have d: "drop j batch = batch ! j # drop (Suc j) batch"
    using lt by (simp add: Cons_nth_drop_Suc)
  show ?case using Cons.IH[OF rec] lt by (simp add: d)
qed

lemma batch_step_assigned:
  assumes "translate_text (post w) tr
             (join delimiter (map sub_text (take batch_size (drop i subtitles))))
             target_language (requests st) = (Inr (Some translated_text), n)"
    and "\<forall>j \<le> length (split delimiter translated_text). \<not> sigint w (i div batch_size) j"
  shows "batch_step w tr target_language subtitles progress_file i st =
           (let batch = take batch_size (drop i subtitles);
                parts = split delimiter translated_text;
                acc = translated_subtitles st @ map2 retext batch parts
            in if length parts \<le> length batch
               then (st\<lparr>requests := n, translated_subtitles := acc,
                        files := save_progress acc progress_file (files st)\<rparr>, None)
               else (st\<lparr>requests := n, translated_subtitles := acc\<rparr>, Some IndexError))"
proof -
  have "assign_parts (sigint w (i div batch_size)) (take batch_size (drop i subtitles)) 0
          (split delimiter translated_text) (translated_subtitles st) =
        (translated_subtitles st @ map2 retext (take batch_size (drop i subtitles)) (split delimiter translated_text),
         if length (split delimiter translated_text) \<le> length (take batch_size (drop i subtitles))
         then None else Some IndexError)"
    using assign_parts_quiet[of 0 "split delimiter translated_text" "sigint w (i div batch_size)"
            "take batch_size (drop i subtitles)" "translated_subtitles st"] assms(2)
    by simp
  then show ?thesis
    unfolding batch_step_def Let_def assms(1) by simp
qed

lemma batch_loop_step:
  "i < length subtitles \<Longrightarrow>
   batch_step w tr l subtitles pf i st = (st', None) \<Longrightarrow>
   batch_loop w tr l subtitles pf i st = batch_loop w tr l subtitles pf (i + batch_size) st'"
  by (subst batch_loop.simps) simp

lemma batch_loop_raise:
  "i < length subtitles \<Longrightarrow>
   batch_step w tr l subtitles pf i st = (st', Some e) \<Longrightarrow>
   batch_loop w tr l subtitles pf i st = (st', Some e)"
  by (subst batch_loop.simps) simp

lemma batch_loop_done:
  "length subtitles \<le> i \<Longrightarrow> batch_loop w tr l subtitles pf i st = (st, None)"
  by (subst batch_loop.simps) simp

lemma reaches_batch_loop:
  "reaches w tr l subtitles pf st0 i st \<Longrightarrow>
   batch_loop w tr l subtitles pf 0 st0 = batch_loop w tr l subtitles pf i st"
  by (induction rule: reaches.induct) (auto simp: batch_loop_step)

lemma batch_step_files:
  "batch_step w tr l subtitles pf i st = (st', e) \<Longrightarrow> p \<noteq> pf \<Longrightarrow> files st' p = files st p"
  unfolding batch_step_def Let_def
  by (auto simp: save_progress_def split: prod.splits sum.splits option.splits)

lemma reaches_files:
  "reaches w tr l subtitles pf st0 i st \<Longrightarrow> p \<noteq> pf \<Longrightarrow> files st p = files st0 p"
  by (induction rule: reaches.induct) (auto simp: batch_step_files)

lemma backed_up_output: "backed_up w output_file files0 output_file = files0 output_file"
  by (auto simp: backed_up_def create_backup_def Let_def split: option.splits)

section \<open>The run, batch by batch\<close>

text \<open>
  C2. When the translated text of a batch splits into exactly as many parts as the batch
  has records (and no interruption arrives while they are assigned), the step appends
  that many records: record \<open>j\<close> keeps the index and the time range of record \<open>j\<close> of
  the batch and gets part \<open>j\<close>, stripped, as its text. The step then saves the progress.
\<close>

theorem batch_step_matching_parts:
  assumes "translate_text (post w) tr
             (join delimiter (map sub_text (take batch_size (drop i subtitles))))
             target_language (requests st) = (Inr (Some translated_text), n)"
    and "\<forall>j \<le> length (split delimiter translated_text). \<not> sigint w (i div batch_size) j"
    and "batch = take batch_size (drop i subtitles)"
    and "parts = split delimiter translated_text"
    and "length parts = length batch"
    and "out = map2 retext batch parts"
  shows "batch_step w tr target_language subtitles progress_file i st =
           (st\<lparr>requests := n, translated_subtitles := translated_subtitles st @ out,
               files := save_progress (translated_subtitles st @ out) progress_file (files st)\<rparr>,
            None)
         \<and> length out = length batch
         \<and> (\<forall>j < length batch.
               index (out ! j) = index (batch ! j)
               \<and> start_time (out ! j) = start_time (batch ! j)
               \<and> end_time (out ! j) = end_time (batch ! j)
               \<and> sub_text (out ! j) = strip (parts ! j))"
proof -
  have "batch_step w tr target_language subtitles progress_file i st =
           (st\<lparr>requests := n, translated_subtitles := translated_subtitles st @ out,
               files := save_progress (translated_subtitles st @ out) progress_file (files st)\<rparr>,
            None)"
    using batch_step_assigned[OF assms(1,2)] assms(3-6)
    by (simp add: Let_def)
  moreover have "length out = length batch" using assms(5,6) by simp
  moreover have "\<forall>j < length batch.
               index (out ! j) = index (batch ! j)
               \<and> start_time (out ! j) = start_time (batch ! j)
               \<and> end_time (out ! j) = end_time (batch ! j)
               \<and> sub_text (out ! j) = strip (parts ! j)"
    using assms(5,6) by (simp add: retext_def)
  ultimately show ?thesis by blast
qed

text \<open>
  C10. When the translated text splits into fewer parts than the batch has records, the
  step raises nothing: it appends one record per part, made of the first records of the
  batch in order, saves the progress, and the loop goes on with the next batch. The
  remaining records of the batch are in no later state of the run.
\<close>

theorem batch_step_fewer_parts:
  assumes "translate_text (post w) tr
             (join delimiter (map sub_text (take batch_size (drop i subtitles))))
             target_language (requests st) = (Inr (Some translated_text), n)"
    and "\<forall>j \<le> length (split delimiter translated_text). \<not> sigint w (i div batch_size) j"
    and "i < length subtitles"
    and "batch = take batch_size (drop i subtitles)"
    and "parts = split delimiter translated_text"
    and "length parts < length batch"
    and "out = map2 retext (take (length parts) batch) parts"
    and "st' = st\<lparr>requests := n, translated_subtitles := translated_subtitles st @ out,
               files := save_progress (translated_subtitles st @ out) progress_file (files st)\<rparr>"
  shows "batch_step w tr target_language subtitles progress_file i st = (st', None)
         \<and> length out = length parts
         \<and> batch_loop w tr target_language subtitles progress_file i st =
             batch_loop w tr target_language subtitles progress_file (i + batch_size) st'"
proof -
  have z: "map2 retext batch parts = out"
  proof -
    have "zip (take (length parts) batch) parts = take (length parts) (zip batch parts)"
      by (simp add: take_zip)
    then have "zip batch parts = zip (take (length parts) batch) parts"
      by simp
    then show ?thesis using assms(7) by simp
  qed
  have 1: "batch_step w tr target_language subtitles progress_file i st = (st', None)"
    using batch_step_assigned[OF assms(1,2)] assms(4-6,8) z
    by (simp add: Let_def)
  have 2: "length out = length parts" using assms(6,7) by simp
  show ?thesis using 1 2 batch_loop_step[OF assms(3) 1] by simp
qed

lemma translate_subtitles_via_loop:
  assumes "backed_up w output_file files0 input_file = Some content"
    and "batch_loop w tr l (parse_srt content) (output_file @ ''.progress'') 0
           (start_state w output_file files0) = (st, e)"
  shows "translate_subtitles w tr files0 input_file output_file l =
           (case e of
              None \<Rightarrow> ((save_progress (translated_subtitles st) output_file (files st))
                          (output_file @ ''.progress'' := None), None)
            | Some KeyboardInterrupt \<Rightarrow>
                (save_progress (translated_subtitles st) (output_file @ ''.progress'') (files st), None)
            | Some x \<Rightarrow>
                (save_progress (translated_subtitles st) (output_file @ ''.progress'') (files st), Some x))"
  using assms
  unfolding translate_subtitles_def Let_def start_state_def
  by (simp split: option.splits exn.splits)

lemma progress_file_differs: "output_file @ ''.progress'' \<noteq> output_file"
  by simp

text \<open>
  C4, amended. The out-of-range failure is raised when the translated text splits
  into more parts than the batch has records, not fewer: every record of the batch
  is appended, then \<open>batch[j]\<close> raises \<open>IndexError\<close>; the run writes the progress file
  with the records appended so far and raises the exception again.
\<close>

theorem translate_subtitles_more_parts:
  assumes "backed_up w output_file files0 input_file = Some content"
    and "subtitles = parse_srt content"
    and "pf = output_file @ ''.progress''"
    and "reaches w tr l subtitles pf (start_state w output_file files0) i st"
    and "i < length subtitles"
    and "batch = take batch_size (drop i subtitles)"
    and "translate_text (post w) tr (join delimiter (map sub_text batch)) l (requests st) =
           (Inr (Some translated_text), n)"
    and "parts = split delimiter translated_text"
    and "\<forall>j \<le> length parts. \<not> sigint w (i div batch_size) j"
    and "length batch < length parts"
    and "acc = translated_subtitles st @ map2 retext batch parts"
  shows "batch_step w tr l subtitles pf i st =
           (st\<lparr>requests := n, translated_subtitles := acc\<rparr>, Some IndexError)
         \<and> translate_subtitles w tr files0 input_file output_file l =
             ((files st)(pf \<mapsto> serialize acc), Some IndexError)
         \<and> length acc = length (translated_subtitles st) + length batch"
proof -
  have tt: "translate_text (post w) tr
             (join delimiter (map sub_text (take batch_size (drop i subtitles)))) l (requests st) =
           (Inr (Some translated_text), n)"
    using assms(6,7) by simp
  have q: "\<forall>j \<le> length (split delimiter translated_text). \<not> sigint w (i div batch_size) j"
    using assms(8,9) by simp
  have 1: "batch_step w tr l subtitles pf i st =
           (st\<lparr>requests := n, translated_subtitles := acc\<rparr>, Some IndexError)"
    using batch_step_assigned[OF tt q] assms(6,8,10,11) by (auto simp: Let_def)
  have "batch_loop w tr l subtitles pf 0 (start_state w output_file files0) =
          (st\<lparr>requests := n, translated_subtitles := acc\<rparr>, Some IndexError)"
    using reaches_batch_loop[OF assms(4)] batch_loop_raise[OF assms(5) 1] by simp
  then have 2: "translate_subtitles w tr files0 input_file output_file l =
             ((files st)(pf \<mapsto> serialize acc), Some IndexError)"
    using translate_subtitles_via_loop[OF assms(1), of tr l] assms(2,3)
    by (simp add: save_progress_def)
  have 3: "length acc = length (translated_subtitles st) + length batch"
    using assms(10,11) by simp
  show ?thesis using 1 2 3 by simp
qed

text \<open>
  C7, amended. When the interruption arrives during the translation request of a
  batch, the run returns without an exception, the progress file holds the records
  of the batches completed before, serialized, and the output file is as it was
  before the run.
\<close>

theorem translate_subtitles_interrupted_request:
  assumes "backed_up w output_file files0 input_file = Some content"
    and "subtitles = parse_srt content"
    and "pf = output_file @ ''.progress''"
    and "reaches w tr l subtitles pf (start_state w output_file files0) i st"
    and "i < length subtitles"
    and "translate_text (post w) tr
           (join delimiter (map sub_text (take batch_size (drop i subtitles)))) l (requests st) =
           (Inl KeyboardInterrupt, n)"
  shows "\<exists>files'. translate_subtitles w tr files0 input_file output_file l = (files', None)
           \<and> files' pf = Some (serialize (translated_subtitles st))
           \<and> files' output_file = files0 output_file"
proof -
  have 1: "batch_step w tr l subtitles pf i st = (st\<lparr>requests := n\<rparr>, Some KeyboardInterrupt)"
    unfolding batch_step_def Let_def assms(6) by simp
  have "batch_loop w tr l subtitles pf 0 (start_state w output_file files0) =
          (st\<lparr>requests := n\<rparr>, Some KeyboardInterrupt)"
    using reaches_batch_loop[OF assms(4)] batch_loop_raise[OF assms(5) 1] by simp
  then have 2: "translate_subtitles w tr files0 input_file output_file l =
             ((files st)(pf \<mapsto> serialize (translated_subtitles st)), None)"
    using translate_subtitles_via_loop[OF assms(1), of tr l] assms(2,3)
    by (simp add: save_progress_def)
  have ne: "output_file \<noteq> pf" using assms(3) by simp
  have "files st output_file = files (start_state w output_file files0) output_file"
    using reaches_files[OF assms(4) ne] .
  then have 3: "files st output_file = files0 output_file"
    by (simp add: start_state_def backed_up_output)
  show ?thesis using 2 3 ne by simp
qed

lemma frame_retext: "frame (retext sub part) = frame sub"
  by (simp add: frame_def retext_def)

lemma map_frame_map2_retext:
  "length parts = length batch \<Longrightarrow> map frame (map2 retext batch parts) = map frame batch"
proof (induction batch arbitrary: parts)
  case Nil
  then show ?case by simp
next
  case (Cons sub batch)
  then show ?case by (cases parts) (auto simp: frame_retext)
qed

lemma batch_step_completed:
  assumes "batch_step w tr l subtitles pf i st = (st', None)"
  obtains t n where
    "translate_text (post w) tr
       (join delimiter (map sub_text (take batch_size (drop i subtitles)))) l (requests st) =
       (Inr (Some t), n)"
    "translated_subtitles st' =
       translated_subtitles st @ map2 retext (take batch_size (drop i subtitles)) (split delimiter t)"
    "length (split delimiter t) \<le> length (take batch_size (drop i subtitles))"
proof -
  let ?batch = "take batch_size (drop i subtitles)"
  obtain r n where tt: "translate_text (post w) tr (join delimiter (map sub_text ?batch)) l (requests st) = (r, n)"
    by (cases "translate_text (post w) tr (join delimiter (map sub_text ?batch)) l (requests st)")
  from assms tt obtain t where r: "r = Inr (Some t)"
    unfolding batch_step_def Let_def by (auto split: sum.splits option.splits)
  obtain acc e where ap: "assign_parts (sigint w (i div batch_size)) ?batch 0 (split delimiter t)
                            (translated_subtitles st) = (acc, e)"
    by (cases "assign_parts (sigint w (i div batch_size)) ?batch 0 (split delimiter t) (translated_subtitles st)")
  from assms tt r ap have e: "e = None" and st': "translated_subtitles st' = acc"
    unfolding batch_step_def Let_def by (auto split: option.splits)
  have "acc = translated_subtitles st @ map2 retext ?batch (split delimiter t)
        \<and> length (split delimiter t) \<le> length ?batch"
    using assign_parts_completed[of "sigint w (i div batch_size)" ?batch 0 "split delimiter t"
            "translated_subtitles st" acc] ap e by simp
  then show ?thesis using that[of t n] tt r st' by simp
qed

lemma reaches_frames:
  assumes "reaches w tr l subtitles pf st0 i st"
    and "translated_subtitles st0 = []"
    and "\<forall>i st' t n. reaches w tr l subtitles pf st0 i st' \<and> i < length subtitles
           \<and> translate_text (post w) tr
                (join delimiter (map sub_text (take batch_size (drop i subtitles)))) l (requests st')
               = (Inr (Some t), n)
           \<longrightarrow> length (split delimiter t) = length (take batch_size (drop i subtitles))"
  shows "map frame (translated_subtitles st) = map frame (take i subtitles)"
  using assms(1)
proof (induction rule: reaches.induct)
  case start
  show ?case using assms(2) by simp
next
  case (step i st st')
  obtain t n where tt: "translate_text (post w) tr
       (join delimiter (map sub_text (take batch_size (drop i subtitles)))) l (requests st) =
       (Inr (Some t), n)"
    and acc: "translated_subtitles st' =
       translated_subtitles st @ map2 retext (take batch_size (drop i subtitles)) (split delimiter t)"
    using batch_step_completed[OF step.hyps(3)] by blast
  have len: "length (split delimiter t) = length (take batch_size (drop i subtitles))"
    using assms(3) step.hyps(1,2) tt by blast
  have "map frame (translated_subtitles st') =
          map frame (take i subtitles) @ map frame (take batch_size (drop i subtitles))"
    using acc step.IH map_frame_map2_retext[OF len] by simp
  also have "\<dots> = map frame (take (i + batch_size) subtitles)"
    by (simp add: take_add)
  finally show ?case .
qed

lemma batch_loop_completed:
  "batch_loop w tr l subtitles pf i st = (st', None) \<Longrightarrow>
   reaches w tr l subtitles pf st0 i st \<Longrightarrow>
   \<exists>i'. reaches w tr l subtitles pf st0 i' st' \<and> length subtitles \<le> i'"
proof (induction w tr l subtitles pf i st rule: batch_loop.induct)
  case (1 w tr l subtitles pf i st)
  show ?case
  proof (cases "i < length subtitles")
    case False
    then have "st' = st" using "1.prems"(1) by (simp add: batch_loop_done)
    then show ?thesis using False "1.prems"(2) by auto
  next
    case True
    obtain st1 e where bs: "batch_step w tr l subtitles pf i st = (st1, e)"
      by (cases "batch_step w tr l subtitles pf i st")
    show ?thesis
    proof (cases e)
      case (Some x)
      then show ?thesis using "1.prems"(1) batch_loop_raise[OF True, of w tr l pf st st1 x] bs by simp
    next
      case None
      have next_loop: "batch_loop w tr l subtitles pf (i + batch_size) st1 = (st', None)"
        using "1.prems"(1) batch_loop_step[OF True, of w tr l pf st st1] bs None by simp
      have r: "reaches w tr l subtitles pf st0 (i + batch_size) st1"
        using reaches.step[OF "1.prems"(2) True] bs None by simp
      show ?thesis using "1.IH"[OF True _ _ next_loop r] bs None by simp
    qed
  qed
qed

text \<open>
  C8, amended. A run that completes every batch without an exception leaves no
  progress file and writes the accumulated records to the output file. They are the
  records of the input in number and in order (same index and time range) when the
  translated text of every batch split into as many parts as the batch has records.
\<close>

theorem translate_subtitles_completed:
  assumes "backed_up w output_file files0 input_file = Some content"
    and "subtitles = parse_srt content"
    and "pf = output_file @ ''.progress''"
    and "batch_loop w tr l subtitles pf 0 (start_state w output_file files0) = (st, None)"
    and "\<forall>i st' t n. reaches w tr l subtitles pf (start_state w output_file files0) i st'
           \<and> i < length subtitles
           \<and> translate_text (post w) tr
                (join delimiter (map sub_text (take batch_size (drop i subtitles)))) l (requests st')
               = (Inr (Some t), n)
           \<longrightarrow> length (split delimiter t) = length (take batch_size (drop i subtitles))"
  shows "\<exists>files'. translate_subtitles w tr files0 input_file output_file l = (files', None)
           \<and> files' pf = None
           \<and> files' output_file = Some (serialize (translated_subtitles st))
           \<and> length (translated_subtitles st) = length subtitles
           \<and> map index (translated_subtitles st) = map index subtitles
           \<and> map start_time (translated_subtitles st) = map start_time subtitles
           \<and> map end_time (translated_subtitles st) = map end_time subtitles"
proof -
  let ?st0 = "start_state w output_file files0"
  have 1: "translate_subtitles w tr files0 input_file output_file l =
             ((save_progress (translated_subtitles st) output_file (files st))(pf := None), None)"
    using translate_subtitles_via_loop[OF assms(1), of tr l st None] assms(2,3,4) by simp
  have ne: "output_file \<noteq> pf" using assms(3) by simp
  obtain i' where r: "reaches w tr l subtitles pf ?st0 i' st" and i': "length subtitles \<le> i'"
    using batch_loop_completed[OF assms(4) reaches.start] by blast
  have e0: "translated_subtitles ?st0 = []" by (simp add: start_state_def)
  have f: "map frame (translated_subtitles st) = map frame subtitles"
    using reaches_frames[OF r e0 assms(5)] i' by simp
  have "map (fst \<circ> frame) (translated_subtitles st) = map (fst \<circ> frame) subtitles"
    "map (fst \<circ> snd \<circ> frame) (translated_subtitles st) = map (fst \<circ> snd \<circ> frame) subtitles"
    "map (snd \<circ> snd \<circ> frame) (translated_subtitles st) = map (snd \<circ> snd \<circ> frame) subtitles"
    using f by (metis map_map)+
  then have g: "map index (translated_subtitles st) = map index subtitles"
    "map start_time (translated_subtitles st) = map start_time subtitles"
    "map end_time (translated_subtitles st) = map end_time subtitles"
    by (simp_all add: comp_def frame_def)
  have len: "length (translated_subtitles st) = length subtitles"
    using f by (metis length_map)
  show ?thesis using 1 ne g len by (simp add: save_progress_def)
qed

section \<open>Blocks, texts and the delimiter\<close>

text \<open>
  C5, amended. An input made of N well-formed blocks, every line of which (the last
  text line too) is ended by a line feed, is parsed to N records, in the order of the
  blocks: record \<open>j\<close> has the index and the time range of block \<open>j\<close>.
\<close>

theorem parse_srt_blocks:
  assumes "list_all well_formed bs"
  shows "length (parse_srt (document blank_at_end bs)) = length bs
         \<and> map index (parse_srt (document blank_at_end bs)) = map block_index bs
         \<and> map start_time (parse_srt (document blank_at_end bs)) = map block_start bs
         \<and> map end_time (parse_srt (document blank_at_end bs)) = map block_end bs"
  by (simp add: parse_srt_document[OF assms] parsed_def comp_def)

theorem parse_srt_blocks_witness:
  "length (parse_srt (document False [block_one, block_two])) = 2
   \<and> map index (parse_srt (document False [block_one, block_two])) = [''1'', ''2'']
   \<and> map start_time (parse_srt (document False [block_one, block_two])) = [''00:00:01,000'', ''00:00:03,000'']
   \<and> map end_time (parse_srt (document False [block_one, block_two])) = [''00:00:02,000'', ''00:00:04,000'']"
proof -
  have wf: "list_all well_formed [block_one, block_two]" by code_simp
  show ?thesis
    using parse_srt_blocks[OF wf, of False] by (simp add: block_one_def block_two_def)
qed

text \<open>
  The claim as stated fails for a block whose last text line is ended by the end of
  the input and not by a line feed: the pattern wants a line feed after every text
  line, so the block is not matched and no record is returned.
\<close>

theorem parse_srt_blocks_counterexample:
  "parse_srt ''1\<newline>00:00:01,000 --> 00:00:02,000\<newline>Hello'' = []
   \<and> parse_srt ''1\<newline>00:00:01,000 --> 00:00:02,000\<newline>Hello\<newline>'' =
       [\<lparr>index = ''1'', start_time = ''00:00:01,000'', end_time = ''00:00:02,000'',
          sub_text = ''Hello''\<rparr>]"
  by code_simp

text \<open>
  C6, amended. The text of the record parsed from a well-formed block is the raw
  text of the block with leading and trailing whitespace removed (\<open>strip\<close>, not
  \<open>rstrip\<close>). Lines of whitespace between the first and the last text line stay in
  the text; an empty line is not inside a block, it ends it.
\<close>

theorem parse_srt_block_text:
  assumes "list_all well_formed bs"
  shows "map sub_text (parse_srt (document blank_at_end bs)) = map (\<lambda>b. strip (raw_text b)) bs"
  by (simp add: parse_srt_document[OF assms] parsed_def comp_def)

theorem parse_srt_block_text_witness:
  "map sub_text (parse_srt (document True [block_one, block_two])) =
     [''Hello\<newline>  \<newline>you'', ''World'']"
proof -
  have wf: "list_all well_formed [block_one, block_two]" by code_simp
  have e: "map (\<lambda>b. strip (raw_text b)) [block_one, block_two] = [''Hello\<newline>  \<newline>you'', ''World'']"
    by code_simp
  show ?thesis
    using parse_srt_block_text[OF wf, of True] e by simp
qed

theorem parse_srt_block_text_counterexample:
  "well_formed block_one
   \<and> map sub_text (parse_srt (document True [block_one])) = [''Hello\<newline>  \<newline>you'']
   \<and> rstrip (raw_text block_one) = '' Hello\<newline>  \<newline>you''"
  by code_simp

text \<open>
  C9. Joining and splitting is not a round trip. A record whose text has a line of
  three hyphens comes out of the parser; the batch made of it is joined to that very
  text; the fallback of \<open>translate_text\<close> returns it unchanged; and it splits into two
  parts, neither of them the text of the record.
\<close>

theorem join_split_not_inverse:
  "map sub_text (parse_srt ''1\<newline>00:00:01,000 --> 00:00:02,000\<newline>a\<newline>---\<newline>b\<newline>\<newline>'') = [''a\<newline>---\<newline>b'']
   \<and> join delimiter [''a\<newline>---\<newline>b''] = ''a\<newline>---\<newline>b''
   \<and> translate_text (\<lambda>n p. Failed NoAttr) init ''a\<newline>---\<newline>b'' ''French'' 0 =
       (Inr (Some ''a\<newline>---\<newline>b''), 3)
   \<and> split delimiter ''a\<newline>---\<newline>b'' = [''a'', ''b'']
   \<and> length (split delimiter (join delimiter [''a\<newline>---\<newline>b''])) \<noteq> length [''a\<newline>---\<newline>b'']"
  by code_simp

text \<open>
  C3. The claim fails on the code when an attempt fails with an exception whose
  \<open>response\<close> attribute is \<open>None\<close> (connection errors, timeouts): the handler reads
  \<open>e.response.content\<close>, which raises \<open>AttributeError\<close> out of \<open>translate_text\<close> at the
  first attempt.
\<close>

theorem translate_text_raises_without_response:
  "translate_text (\<lambda>n p. Failed AttrNone) init ''Hello'' ''French'' 0 = (Inl AttributeError, 1)"
  by code_simp

section \<open>Facts about the translation client\<close>

declare attempts.simps [simp del]

lemma translate_text_generated:
  "0 < max_retries tr \<Longrightarrow> p n (prompt_for text_in l) = Generated t \<Longrightarrow>
   translate_text p tr text_in l n = (Inr (Some t), Suc n)"
  unfolding translate_text_def by (subst attempts.simps) simp

lemma translate_text_interrupted:
  "0 < max_retries tr \<Longrightarrow> p n (prompt_for text_in l) = Interrupted \<Longrightarrow>
   translate_text p tr text_in l n = (Inl KeyboardInterrupt, Suc n)"
  unfolding translate_text_def by (subst attempts.simps) simp

lemma attempts_all_fail:
  assumes "attempt < max_retries tr"
    and "\<forall>k < max_retries tr - attempt. \<exists>e. p (n + k) prompt = Failed e \<and> e \<noteq> AttrNone"
  shows "attempts p tr prompt text_in attempt n =
           (Inr (Some text_in), n + (max_retries tr - attempt))"
  using assms
proof (induction "max_retries tr - attempt" arbitrary: attempt n)
  case 0
  then show ?case by simp
next
  case (Suc d)
  from Suc.prems(2) Suc.hyps(2) obtain e where e: "p n prompt = Failed e" "e \<noteq> AttrNone"
    by (metis add.right_neutral zero_less_Suc)
  show ?case
  proof (cases "attempt < max_retries tr - 1")
    case False
    then have "max_retries tr - attempt = 1" using Suc.prems(1) by simp
    then show ?thesis using e Suc.prems(1) False
      by (subst attempts.simps) simp
  next
    case True
    have d: "d = max_retries tr - Suc attempt" using Suc.hyps(2) by simp
    have lt: "Suc attempt < max_retries tr" using True by simp
    have rest: "\<forall>k < max_retries tr - Suc attempt. \<exists>e. p (Suc n + k) prompt = Failed e \<and> e \<noteq> AttrNone"
    proof (intro allI impI)
      fix k assume "k < max_retries tr - Suc attempt"
      then have "Suc k < max_retries tr - attempt" by simp
      then show "\<exists>e. p (Suc n + k) prompt = Failed e \<and> e \<noteq> AttrNone"
        using Suc.prems(2) by (metis add_Suc_shift)
    qed
    have "attempts p tr prompt text_in (Suc attempt) (Suc n) =
            (Inr (Some text_in), Suc n + (max_retries tr - Suc attempt))"
      by (rule Suc.hyps(1)[OF d lt rest])
    then show ?thesis using e Suc.prems(1) True lt
      by (subst attempts.simps) simp
  qed
qed

text \<open>
  What holds of the fallback: when every attempt fails with an exception that has no
  \<open>response\<close> attribute or carries a response, \<open>translate_text\<close> makes \<open>max_retries\<close>
  requests and returns its input.
\<close>

theorem translate_text_fallback:
  assumes "0 < max_retries tr"
    and "\<forall>k < max_retries tr. \<exists>e. p (n + k) (prompt_for text_in l) = Failed e \<and> e \<noteq> AttrNone"
  shows "translate_text p tr text_in l n = (Inr (Some text_in), n + max_retries tr)"
  unfolding translate_text_def
  using attempts_all_fail[of 0 tr p n "prompt_for text_in l" text_in] assms by simp

theorem translate_text_fallback_witness:
  "translate_text (\<lambda>n p. if n = 1 then Failed (AttrResponse ''overloaded'') else Failed NoAttr)
     init ''Hello'' ''French'' 0 = (Inr (Some ''Hello''), 3)"
proof -
  have 1: "0 < max_retries init" by (simp add: init_def)
  have 2: "\<forall>k < max_retries init.
             \<exists>e. (\<lambda>n p. if n = 1 then Failed (AttrResponse ''overloaded'') else Failed NoAttr)
                    (0 + k) (prompt_for ''Hello'' ''French'') = Failed e \<and> e \<noteq> AttrNone"
    by simp
  show ?thesis using translate_text_fallback[OF 1 2] by (simp add: init_def)
qed

lemma reaches_index:
  "reaches w tr l subtitles pf st0 i st \<Longrightarrow> batch_size dvd i"
  by (induction rule: reaches.induct) auto

section \<open>The claims on example runs\<close>

theorem batch_step_matching_parts_witness:
  "translated_subtitles
     (fst (batch_step (steady ''Bonjour\<newline>---\<newline> Monde '') init ''French'' (parse_srt two_blocks)
             ''out.srt.progress'' 0 empty_state)) =
     [\<lparr>index = ''1'', start_time = ''00:00:01,000'', end_time = ''00:00:02,000'', sub_text = ''Bonjour''\<rparr>,
      \<lparr>index = ''2'', start_time = ''00:00:03,000'', end_time = ''00:00:04,000'', sub_text = ''Monde''\<rparr>]
   \<and> snd (batch_step (steady ''Bonjour\<newline>---\<newline> Monde '') init ''French'' (parse_srt two_blocks)
             ''out.srt.progress'' 0 empty_state) = None"
proof -
  let ?w = "steady ''Bonjour\<newline>---\<newline> Monde ''"
  let ?batch = "take batch_size (drop 0 (parse_srt two_blocks))"
  let ?parts = "split delimiter ''Bonjour\<newline>---\<newline> Monde ''"
  have tt: "translate_text (post ?w) init (join delimiter (map sub_text ?batch)) ''French''
              (requests empty_state) = (Inr (Some ''Bonjour\<newline>---\<newline> Monde ''), 1)"
    by code_simp
  have quiet: "\<forall>j \<le> length ?parts. \<not> sigint ?w (0 div batch_size) j"
    by (simp add: steady_def)
  have len: "length ?parts = length ?batch" by code_simp
  have out: "map2 retext ?batch ?parts =
     [\<lparr>index = ''1'', start_time = ''00:00:01,000'', end_time = ''00:00:02,000'', sub_text = ''Bonjour''\<rparr>,
      \<lparr>index = ''2'', start_time = ''00:00:03,000'', end_time = ''00:00:04,000'', sub_text = ''Monde''\<rparr>]"
    by code_simp
  have e: "translated_subtitles empty_state = []" by (simp add: empty_state_def)
  show ?thesis
    using batch_step_matching_parts[OF tt quiet refl refl len refl, of "''out.srt.progress''"] out e
    by simp
qed

theorem batch_step_fewer_parts_witness:
  "translated_subtitles
     (fst (batch_loop (steady ''Bonjour'') init ''French'' (parse_srt two_blocks)
             ''out.srt.progress'' 0 empty_state)) =
     [\<lparr>index = ''1'', start_time = ''00:00:01,000'', end_time = ''00:00:02,000'', sub_text = ''Bonjour''\<rparr>]
   \<and> snd (batch_loop (steady ''Bonjour'') init ''French'' (parse_srt two_blocks)
             ''out.srt.progress'' 0 empty_state) = None"
proof -
  let ?w = "steady ''Bonjour''"
  let ?batch = "take batch_size (drop 0 (parse_srt two_blocks))"
  let ?parts = "split delimiter ''Bonjour''"
  have tt: "translate_text (post ?w) init (join delimiter (map sub_text ?batch)) ''French''
              (requests empty_state) = (Inr (Some ''Bonjour''), 1)"
    by code_simp
  have quiet: "\<forall>j \<le> length ?parts. \<not> sigint ?w (0 div batch_size) j"
    by (simp add: steady_def)
  have lt: "0 < length (parse_srt two_blocks)" by code_simp
  have len: "length ?parts < length ?batch" by code_simp
  have out: "map2 retext (take (length ?parts) ?batch) ?parts =
     [\<lparr>index = ''1'', start_time = ''00:00:01,000'', end_time = ''00:00:02,000'', sub_text = ''Bonjour''\<rparr>]"
    by code_simp
  have e: "translated_subtitles empty_state = []" by (simp add: empty_state_def)
  have fin: "length (parse_srt two_blocks) \<le> 0 + batch_size" by code_simp
  show ?thesis
    using batch_step_fewer_parts[OF tt quiet lt refl refl len refl refl, of "''out.srt.progress''"]
      out e batch_loop_done[OF fin]
    by simp
qed

text \<open>
  C4 as stated fails: the translated text of the batch of two records splits
  into one part, and the run raises nothing. It completes and writes one record.
\<close>

theorem fewer_parts_counterexample:
  "translate_text (post (steady ''Bonjour'')) init
     (join delimiter (map sub_text (parse_srt two_blocks))) ''French'' 0 = (Inr (Some ''Bonjour''), 1)
   \<and> length (split delimiter ''Bonjour'') < length (parse_srt two_blocks)
   \<and> snd (translate_subtitles (steady ''Bonjour'') init [''in.srt'' \<mapsto> two_blocks]
            ''in.srt'' ''out.srt'' ''French'') = None"
  by code_simp

text \<open>
  The same run against C8: it completes every batch without an exception, and the
  output file holds one record where the input has two.
\<close>

theorem completed_run_counterexample:
  "snd (batch_loop (steady ''Bonjour'') init ''French'' (parse_srt two_blocks) ''out.srt.progress'' 0
          (start_state (steady ''Bonjour'') ''out.srt'' [''in.srt'' \<mapsto> two_blocks])) = None
   \<and> snd (translate_subtitles (steady ''Bonjour'') init [''in.srt'' \<mapsto> two_blocks]
            ''in.srt'' ''out.srt'' ''French'') = None
   \<and> fst (translate_subtitles (steady ''Bonjour'') init [''in.srt'' \<mapsto> two_blocks]
            ''in.srt'' ''out.srt'' ''French'') ''out.srt.progress'' = None
   \<and> fst (translate_subtitles (steady ''Bonjour'') init [''in.srt'' \<mapsto> two_blocks]
            ''in.srt'' ''out.srt'' ''French'') ''out.srt'' =
       Some ''1\<newline>00:00:01,000 --> 00:00:02,000\<newline>Bonjour\<newline>\<newline>''
   \<and> length (parse_srt two_blocks) = 2"
  by code_simp

text \<open>
  Against C7: the input has two batches; in the first one the signal arrives after
  one part was assigned. No batch has been completed, and the progress file holds
  the record that was appended, not the serialization of no record.
\<close>

theorem interrupted_counterexample:
  "length (parse_srt six_blocks) = 6
   \<and> sigint (signalled five_parts 0 1) 0 1
   \<and> snd (translate_subtitles (signalled five_parts 0 1) init [''in.srt'' \<mapsto> six_blocks]
            ''in.srt'' ''out.srt'' ''French'') = None
   \<and> fst (translate_subtitles (signalled five_parts 0 1) init [''in.srt'' \<mapsto> six_blocks]
            ''in.srt'' ''out.srt'' ''French'') ''out.srt.progress'' =
       Some ''1\<newline>00:00:01,000 --> 00:00:02,000\<newline>A\<newline>\<newline>''
   \<and> serialize [] = []"
  by code_simp

lemma backed_up_fresh:
  "files0 output_file = None \<Longrightarrow> backed_up w output_file files0 = files0"
  by (auto simp: backed_up_def)

theorem translate_subtitles_more_parts_witness:
  "snd (translate_subtitles (steady ''a\<newline>---\<newline>b\<newline>---\<newline>c'') init [''in.srt'' \<mapsto> two_blocks]
          ''in.srt'' ''out.srt'' ''French'') = Some IndexError
   \<and> fst (translate_subtitles (steady ''a\<newline>---\<newline>b\<newline>---\<newline>c'') init [''in.srt'' \<mapsto> two_blocks]
          ''in.srt'' ''out.srt'' ''French'') ''out.srt.progress'' =
       Some ''1\<newline>00:00:01,000 --> 00:00:02,000\<newline>a\<newline>\<newline>2\<newline>00:00:03,000 --> 00:00:04,000\<newline>b\<newline>\<newline>''"
proof -
  let ?w = "steady ''a\<newline>---\<newline>b\<newline>---\<newline>c''"
  let ?files0 = "[''in.srt'' \<mapsto> two_blocks]"
  let ?st0 = "start_state ?w ''out.srt'' ?files0"
  let ?subs = "parse_srt two_blocks"
  let ?batch = "take batch_size (drop 0 ?subs)"
  let ?parts = "split delimiter ''a\<newline>---\<newline>b\<newline>---\<newline>c''"
  have inp: "backed_up ?w ''out.srt'' ?files0 ''in.srt'' = Some two_blocks"
    by (simp add: backed_up_fresh)
  have r: "reaches ?w init ''French'' ?subs (''out.srt'' @ ''.progress'') ?st0 0 ?st0"
    by (rule reaches.start)
  have lt: "0 < length ?subs" by code_simp
  have rq: "requests ?st0 = 0" by (simp add: start_state_def)
  have tt: "translate_text (post ?w) init (join delimiter (map sub_text ?batch)) ''French''
              (requests ?st0) = (Inr (Some ''a\<newline>---\<newline>b\<newline>---\<newline>c''), 1)"
    unfolding rq by code_simp
  have quiet: "\<forall>j \<le> length ?parts. \<not> sigint ?w (0 div batch_size) j"
    by (simp add: steady_def)
  have len: "length ?batch < length ?parts" by code_simp
  have acc: "serialize (translated_subtitles ?st0 @ map2 retext ?batch ?parts) =
       ''1\<newline>00:00:01,000 --> 00:00:02,000\<newline>a\<newline>\<newline>2\<newline>00:00:03,000 --> 00:00:04,000\<newline>b\<newline>\<newline>''"
    unfolding start_state_def by code_simp
  show ?thesis
    using translate_subtitles_more_parts[OF inp refl refl r lt refl tt refl quiet len refl] acc
    by simp
qed

theorem translate_subtitles_interrupted_request_witness:
  "snd (translate_subtitles (interrupted_later five_parts) init [''in.srt'' \<mapsto> six_blocks]
          ''in.srt'' ''out.srt'' ''French'') = None
   \<and> fst (translate_subtitles (interrupted_later five_parts) init [''in.srt'' \<mapsto> six_blocks]
          ''in.srt'' ''out.srt'' ''French'') ''out.srt.progress'' =
       Some ''1\<newline>00:00:01,000 --> 00:00:02,000\<newline>A\<newline>\<newline>2\<newline>00:00:02,000 --> 00:00:03,000\<newline>B\<newline>\<newline>3\<newline>00:00:03,000 --> 00:00:04,000\<newline>C\<newline>\<newline>4\<newline>00:00:04,000 --> 00:00:05,000\<newline>D\<newline>\<newline>5\<newline>00:00:05,000 --> 00:00:06,000\<newline>E\<newline>\<newline>''
   \<and> fst (translate_subtitles (interrupted_later five_parts) init [''in.srt'' \<mapsto> six_blocks]
          ''in.srt'' ''out.srt'' ''French'') ''out.srt'' = None"
proof -
  let ?w = "interrupted_later five_parts"
  let ?files0 = "[''in.srt'' \<mapsto> six_blocks]"
  let ?st0 = "start_state ?w ''out.srt'' ?files0"
  let ?pf = "''out.srt'' @ ''.progress''"
  let ?subs = "parse_srt six_blocks"
  let ?batch = "take batch_size (drop 0 ?subs)"
  let ?parts = "split delimiter five_parts"
  define acc where "acc = translated_subtitles ?st0 @ map2 retext ?batch ?parts"
  define st1 where
    "st1 = ?st0\<lparr>requests := 1, translated_subtitles := acc,
                files := save_progress acc ?pf (files ?st0)\<rparr>"
  have inp: "backed_up ?w ''out.srt'' ?files0 ''in.srt'' = Some six_blocks"
    by (simp add: backed_up_fresh)
  have rq: "requests ?st0 = 0" by (simp add: start_state_def)
  have tt0: "translate_text (post ?w) init (join delimiter (map sub_text ?batch)) ''French''
              (requests ?st0) = (Inr (Some five_parts), 1)"
    unfolding rq by code_simp
  have quiet: "\<forall>j \<le> length ?parts. \<not> sigint ?w (0 div batch_size) j"
    by (simp add: interrupted_later_def steady_def)
  have len: "length ?parts \<le> length ?batch" by code_simp
  have bs: "batch_step ?w init ''French'' ?subs ?pf 0 ?st0 = (st1, None)"
    using batch_step_assigned[OF tt0 quiet, of ?pf] len
    by (simp add: Let_def st1_def acc_def)
  have lt0: "0 < length ?subs" by code_simp
  have r: "reaches ?w init ''French'' ?subs ?pf ?st0 (0 + batch_size) st1"
    by (rule reaches.step[OF reaches.start lt0 bs])
  have lt1: "0 + batch_size < length ?subs" by code_simp
  have rq1: "requests st1 = 1" by (simp add: st1_def)
  have tt1: "translate_text (post ?w) init
               (join delimiter (map sub_text (take batch_size (drop (0 + batch_size) ?subs))))
               ''French'' (requests st1) = (Inl KeyboardInterrupt, 2)"
    unfolding rq1 by code_simp
  have ts: "translated_subtitles st1 = acc" by (simp add: st1_def)
  have ser: "serialize acc =
       ''1\<newline>00:00:01,000 --> 00:00:02,000\<newline>A\<newline>\<newline>2\<newline>00:00:02,000 --> 00:00:03,000\<newline>B\<newline>\<newline>3\<newline>00:00:03,000 --> 00:00:04,000\<newline>C\<newline>\<newline>4\<newline>00:00:04,000 --> 00:00:05,000\<newline>D\<newline>\<newline>5\<newline>00:00:05,000 --> 00:00:06,000\<newline>E\<newline>\<newline>''"
    unfolding acc_def start_state_def by code_simp
  show ?thesis
    using translate_subtitles_interrupted_request[OF inp refl refl r lt1 tt1] ts ser
    by auto
qed

lemma translate_text_steady:
  "translate_text (post (steady answer)) init text_in l n = (Inr (Some answer), Suc n)"
  by (rule translate_text_generated) (simp_all add: init_def steady_def)

theorem translate_subtitles_completed_witness:
  "snd (translate_subtitles (steady ''Bonjour\<newline>---\<newline> Monde '') init [''in.srt'' \<mapsto> two_blocks]
          ''in.srt'' ''out.srt'' ''French'') = None
   \<and> fst (translate_subtitles (steady ''Bonjour\<newline>---\<newline> Monde '') init [''in.srt'' \<mapsto> two_blocks]
          ''in.srt'' ''out.srt'' ''French'') ''out.srt.progress'' = None
   \<and> fst (translate_subtitles (steady ''Bonjour\<newline>---\<newline> Monde '') init [''in.srt'' \<mapsto> two_blocks]
          ''in.srt'' ''out.srt'' ''French'') ''out.srt'' =
       Some ''1\<newline>00:00:01,000 --> 00:00:02,000\<newline>Bonjour\<newline>\<newline>2\<newline>00:00:03,000 --> 00:00:04,000\<newline>Monde\<newline>\<newline>''"
proof -
  let ?answer = "''Bonjour\<newline>---\<newline> Monde ''"
  let ?w = "steady ?answer"
  let ?files0 = "[''in.srt'' \<mapsto> two_blocks]"
  let ?st0 = "start_state ?w ''out.srt'' ?files0"
  let ?pf = "''out.srt'' @ ''.progress''"
  let ?subs = "parse_srt two_blocks"
  let ?batch = "take batch_size (drop 0 ?subs)"
  let ?parts = "split delimiter ?answer"
  define acc where "acc = translated_subtitles ?st0 @ map2 retext ?batch ?parts"
  define st1 where
    "st1 = ?st0\<lparr>requests := Suc (requests ?st0), translated_subtitles := acc,
                files := save_progress acc ?pf (files ?st0)\<rparr>"
  have inp: "backed_up ?w ''out.srt'' ?files0 ''in.srt'' = Some two_blocks"
    by (simp add: backed_up_fresh)
  have tt0: "translate_text (post ?w) init (join delimiter (map sub_text ?batch)) ''French''
              (requests ?st0) = (Inr (Some ?answer), Suc (requests ?st0))"
    by (rule translate_text_steady)
  have quiet: "\<forall>j \<le> length ?parts. \<not> sigint ?w (0 div batch_size) j"
    by (simp add: steady_def)
  have len: "length ?parts = length ?batch" by code_simp
  have bs: "batch_step ?w init ''French'' ?subs ?pf 0 ?st0 = (st1, None)"
    using batch_step_assigned[OF tt0 quiet, of ?pf] len
    by (simp add: Let_def st1_def acc_def)
  have lt0: "0 < length ?subs" by code_simp
  have fin: "length ?subs \<le> 0 + batch_size" by code_simp
  have loop: "batch_loop ?w init ''French'' ?subs ?pf 0 ?st0 = (st1, None)"
    using batch_loop_step[OF lt0 bs] batch_loop_done[OF fin] by simp
  have shaped: "\<forall>i st' t n. reaches ?w init ''French'' ?subs ?pf ?st0 i st'
           \<and> i < length ?subs
           \<and> translate_text (post ?w) init
                (join delimiter (map sub_text (take batch_size (drop i ?subs)))) ''French'' (requests st')
               = (Inr (Some t), n)
           \<longrightarrow> length (split delimiter t) = length (take batch_size (drop i ?subs))"
  proof (intro allI impI, elim conjE)
    fix i st' t n
    assume r: "reaches ?w init ''French'' ?subs ?pf ?st0 i st'"
      and lt: "i < length ?subs"
      and tt: "translate_text (post ?w) init
                (join delimiter (map sub_text (take batch_size (drop i ?subs)))) ''French'' (requests st')
               = (Inr (Some t), n)"
    have "length ?subs < batch_size" by code_simp
    then have "i < batch_size" using lt by simp
    moreover have "batch_size dvd i" by (rule reaches_index[OF r])
    ultimately have i0: "i = 0" by (auto elim: dvdE)
    have "t = ?answer" using tt by (simp add: translate_text_steady)
    then show "length (split delimiter t) = length (take batch_size (drop i ?subs))"
      using len i0 by simp
  qed
  have ts: "translated_subtitles st1 = acc" by (simp add: st1_def)
  have ser: "serialize acc =
       ''1\<newline>00:00:01,000 --> 00:00:02,000\<newline>Bonjour\<newline>\<newline>2\<newline>00:00:03,000 --> 00:00:04,000\<newline>Monde\<newline>\<newline>''"
    unfolding acc_def start_state_def by code_simp
  show ?thesis
    using translate_subtitles_completed[OF inp refl refl loop shaped] ts ser
    by auto
qed

text \<open>
  An interruption that arrives while the parts of a batch are assigned, after \<open>m\<close> of
  them: the run returns without an exception, and the progress file holds the records
  of the batches before and the \<open>m\<close> records already appended for this one.
\<close>

theorem translate_subtitles_interrupted_assignment:
  assumes "backed_up w output_file files0 input_file = Some content"
    and "subtitles = parse_srt content"
    and "pf = output_file @ ''.progress''"
    and "reaches w tr l subtitles pf (start_state w output_file files0) i st"
    and "i < length subtitles"
    and "batch = take batch_size (drop i subtitles)"
    and "translate_text (post w) tr (join delimiter (map sub_text batch)) l (requests st) =
           (Inr (Some translated_text), n)"
    and "parts = split delimiter translated_text"
    and "\<forall>k < m. \<not> sigint w (i div batch_size) k"
    and "sigint w (i div batch_size) m"
    and "m \<le> length parts"
    and "m \<le> length batch"
  shows "\<exists>files'. translate_subtitles w tr files0 input_file output_file l = (files', None)
           \<and> files' pf =
               Some (serialize (translated_subtitles st @ map2 retext batch (take m parts)))
           \<and> files' output_file = files0 output_file"
proof -
  let ?acc = "translated_subtitles st @ map2 retext batch (take m parts)"
  have ap: "assign_parts (sigint w (i div batch_size)) batch 0 parts (translated_subtitles st) =
          (?acc, Some KeyboardInterrupt)"
    using assign_parts_interrupted[of m "sigint w (i div batch_size)" 0 parts batch
            "translated_subtitles st"] assms(9-12)
    by simp
  have tt: "translate_text (post w) tr
             (join delimiter (map sub_text (take batch_size (drop i subtitles)))) l (requests st) =
           (Inr (Some translated_text), n)"
    using assms(6,7) by simp
  have 1: "batch_step w tr l subtitles pf i st =
             (st\<lparr>requests := n, translated_subtitles := ?acc\<rparr>, Some KeyboardInterrupt)"
    unfolding batch_step_def Let_def tt using ap assms(6,8) by simp
  have "batch_loop w tr l subtitles pf 0 (start_state w output_file files0) =
          (st\<lparr>requests := n, translated_subtitles := ?acc\<rparr>, Some KeyboardInterrupt)"
    using reaches_batch_loop[OF assms(4)] batch_loop_raise[OF assms(5) 1] by simp
  then have 2: "translate_subtitles w tr files0 input_file output_file l =
             ((files st)(pf \<mapsto> serialize ?acc), None)"
    using translate_subtitles_via_loop[OF assms(1), of tr l] assms(2,3)
    by (simp add: save_progress_def)
  have ne: "output_file \<noteq> pf" using assms(3) by simp
  have "files st output_file = files (start_state w output_file files0) output_file"
    using reaches_files[OF assms(4) ne] .
  then have 3: "files st output_file = files0 output_file"
    by (simp add: start_state_def backed_up_output)
  show ?thesis using 2 3 ne by simp
qed

theorem translate_subtitles_interrupted_assignment_witness:
  "snd (translate_subtitles (signalled five_parts 0 2) init [''in.srt'' \<mapsto> six_blocks]
          ''in.srt'' ''out.srt'' ''French'') = None
   \<and> fst (translate_subtitles (signalled five_parts 0 2) init [''in.srt'' \<mapsto> six_blocks]
          ''in.srt'' ''out.srt'' ''French'') ''out.srt.progress'' =
       Some ''1\<newline>00:00:01,000 --> 00:00:02,000\<newline>A\<newline>\<newline>2\<newline>00:00:02,000 --> 00:00:03,000\<newline>B\<newline>\<newline>''
   \<and> fst (translate_subtitles (signalled five_parts 0 2) init [''in.srt'' \<mapsto> six_blocks]
          ''in.srt'' ''out.srt'' ''French'') ''out.srt'' = None"
proof -
  let ?w = "signalled five_parts 0 2"
  let ?files0 = "[''in.srt'' \<mapsto> six_blocks]"
  let ?st0 = "start_state ?w ''out.srt'' ?files0"
  let ?subs = "parse_srt six_blocks"
  let ?batch = "take batch_size (drop 0 ?subs)"
  let ?parts = "split delimiter five_parts"
  have inp: "backed_up ?w ''out.srt'' ?files0 ''in.srt'' = Some six_blocks"
    by (simp add: backed_up_fresh)
  have r: "reaches ?w init ''French'' ?subs (''out.srt'' @ ''.progress'') ?st0 0 ?st0"
    by (rule reaches.start)
  have lt: "0 < length ?subs" by code_simp
  have rq: "requests ?st0 = 0" by (simp add: start_state_def)
  have tt: "translate_text (post ?w) init (join delimiter (map sub_text ?batch)) ''French''
              (requests ?st0) = (Inr (Some five_parts), 1)"
    unfolding rq by code_simp
  have q: "\<forall>k < 2. \<not> sigint ?w (0 div batch_size) k"
    by (simp add: signalled_def steady_def)
  have s: "sigint ?w (0 div batch_size) 2"
    by (simp add: signalled_def steady_def)
  have m1: "2 \<le> length ?parts" by code_simp
  have m2: "2 \<le> length ?batch" by code_simp
  have ser: "serialize (translated_subtitles ?st0 @ map2 retext ?batch (take 2 ?parts)) =
       ''1\<newline>00:00:01,000 --> 00:00:02,000\<newline>A\<newline>\<newline>2\<newline>00:00:02,000 --> 00:00:03,000\<newline>B\<newline>\<newline>''"
    unfolding start_state_def by code_simp
  show ?thesis
    using translate_subtitles_interrupted_assignment[OF inp refl refl r lt refl tt refl q s m1 m2] ser
    by auto
qed

end
